theory Spec2Isabelle
  imports Complex_Main
begin

section \<open>Strings and numbers of the host language\<close>

text \<open>
  A string of the program is a finite sequence of UTF-16 code units; its \<open>length\<close>, its
  indices and the regular expressions of \<open>App.tsx\<close> (none has the \<open>u\<close> flag) all
  work on code units. A code unit is held as a natural number (its value, below 65536);
  no definition below computes with code units beyond comparing them, so nothing depends
  on the bound. ASCII literals are written through \<open>js\<close>.

  Numbers of the program are IEEE doubles. The counts (lengths of strings and arrays)
  are held as \<open>nat\<close> and integers as \<open>int\<close>: a double holds every integer below
  \<open>2^53\<close> exactly, and the program adds, subtracts and takes remainders of such
  integers without error. A quotient or a product with a fraction is rounded: the value
  of a double is held as a rational, and every division, multiplication, addition and
  subtraction of \<open>formatTime\<close>, of the reading grade and of the keyword density is
  rounded to the nearest double by \<open>double\<close> below. The score of a sentence is held
  as an exact rational in \<open>sentenceScore\<close> and with the rounding of doubles in
  \<open>sentenceScoreDouble\<close>; the two give the same level.
\<close>

type_synonym jsstring = "nat list"

definition js :: "string \<Rightarrow> jsstring" where
  "js s = map of_char s"

text \<open>\<open>\s\<close> in a regular expression and the characters removed by \<open>trim()\<close>:
  the WhiteSpace and LineTerminator code points of ECMAScript.\<close>

definition isSpace :: "nat \<Rightarrow> bool" where
  "isSpace c \<longleftrightarrow>
     (9 \<le> c \<and> c \<le> 13) \<or> c = 32 \<or> c = 160 \<or> c = 5760 \<or> (8192 \<le> c \<and> c \<le> 8202) \<or>
     c = 8232 \<or> c = 8233 \<or> c = 8239 \<or> c = 8287 \<or> c = 12288 \<or> c = 65279"

definition trim :: "jsstring \<Rightarrow> jsstring" where
  "trim s = rev (dropWhile isSpace (rev (dropWhile isSpace s)))"

text \<open>\<open>[a-z]\<close>, \<open>[a-z0-9]\<close> and \<open>[aeiouy]\<close>.\<close>

definition isLower :: "nat \<Rightarrow> bool" where
  "isLower c \<longleftrightarrow> 97 \<le> c \<and> c \<le> 122"

definition isLowerOrDigit :: "nat \<Rightarrow> bool" where
  "isLowerOrDigit c \<longleftrightarrow> isLower c \<or> (48 \<le> c \<and> c \<le> 57)"

definition isVowel :: "nat \<Rightarrow> bool" where
  "isVowel c \<longleftrightarrow> c \<in> set (js ''aeiouy'')"

text \<open>
  \<open>String.prototype.toLowerCase\<close>. Both uses in \<open>App.tsx\<close> are followed at once by
  a \<open>replace\<close> that deletes every code unit outside \<open>[a-z]\<close> (or \<open>[a-z0-9]\<close>),
  so only the code units that lower-case into that range matter: \<open>A\<close>--\<open>Z\<close>, the Kelvin
  sign U+212A (to \<open>k\<close>) and U+0130 (to \<open>i\<close> followed by U+0307). The Unicode case tables
  map no other code point into ASCII; every other code unit is left as it is here.
\<close>

definition lowerUnit :: "nat \<Rightarrow> jsstring" where
  "lowerUnit c =
     (if 65 \<le> c \<and> c \<le> 90 then [c + 32]
      else if c = 8490 then [107]
      else if c = 304 then [105, 775]
      else [c])"

definition toLowerCase :: "jsstring \<Rightarrow> jsstring" where
  "toLowerCase s = concat (map lowerUnit s)"

text \<open>
  Template rendering \<open>${n}\<close> of an integer: its decimal digits, with a minus sign
  for a negative one. That is the rendering of the integers below \<open>2^53\<close> in absolute
  value, which a double holds exactly. From \<open>2^53\<close> on a double holds only some of the
  integers and the template prints the shortest digits that read back as the same
  double (\<open>2^60\<close> prints as \<open>1152921504606847000\<close>), in exponent form from \<open>10^21\<close>
  on; these two functions do not describe that, and what is proved of them below is
  stated under the bound.
\<close>

fun showNat :: "nat \<Rightarrow> jsstring" where
  "showNat n = (if n < 10 then [48 + n] else showNat (n div 10) @ [48 + n mod 10])"

declare showNat.simps [simp del]

definition showInt :: "int \<Rightarrow> jsstring" where
  "showInt i = (if i < 0 then 45 # showNat (nat (- i)) else showNat (nat i))"

text \<open>The remainder operator \<open>%\<close> on integers: the result has the sign of the dividend.\<close>

definition jsRem :: "int \<Rightarrow> int \<Rightarrow> int" where
  "jsRem a b = sgn a * (\<bar>a\<bar> mod \<bar>b\<bar>)"

text \<open>\<open>Math.round\<close>: the nearest integer, a tie going up. It is exact on the value
  of its argument.\<close>

definition mathRound :: "rat \<Rightarrow> int" where
  "mathRound x = \<lfloor>x + 1 / 2\<rfloor>"

subsection \<open>Rounding to a double\<close>

text \<open>
  A double other than zero is \<open>m * 2^(e - 52)\<close> with a mantissa \<open>m\<close> of 53 bits,
  \<open>2^52 \<le> |m| < 2^53\<close>. The result of an arithmetic operation on doubles is the exact
  result rounded to the nearest double, a tie going to the even mantissa. For \<open>x > 0\<close>,
  \<open>exponent x\<close> is the \<open>e\<close> with \<open>2^e \<le> x < 2^(e + 1)\<close>, found from the number of
  binary digits of the integer part of \<open>x\<close> (of \<open>1 / x\<close> when \<open>x < 1\<close>).

  The exponent is not bounded here: the numbers of the program are built from counts
  below \<open>2^53\<close> and the constants of \<open>App.tsx\<close>, and no operation on them reaches the
  largest double (about \<open>2^1024\<close>) or falls under the smallest normal one (\<open>2^-1022\<close>).
\<close>

fun bitLength :: "nat \<Rightarrow> nat" where
  "bitLength n = (if n = 0 then 0 else Suc (bitLength (n div 2)))"

declare bitLength.simps [simp del]

definition exponent :: "rat \<Rightarrow> int" where
  "exponent x =
     (if 1 \<le> x then int (bitLength (nat \<lfloor>x\<rfloor>)) - 1
      else - int (bitLength (nat (\<lceil>1 / x\<rceil> - 1))))"

definition roundHalfEven :: "rat \<Rightarrow> int" where
  "roundHalfEven x =
     (let f = \<lfloor>x\<rfloor>; d = x - of_int f
      in if d < 1 / 2 then f
         else if 1 / 2 < d then f + 1
         else if even f then f else f + 1)"

definition double :: "rat \<Rightarrow> rat" where
  "double x =
     (if x = 0 then 0
      else
        let e = exponent \<bar>x\<bar>
        in sgn x * of_int (roundHalfEven (\<bar>x\<bar> * power_int 2 (52 - e))) * power_int 2 (e - 52))"

text \<open>The doubles, with any exponent: an integer below \<open>2^53\<close> in absolute value times
  a power of two.\<close>

definition representable :: "rat \<Rightarrow> bool" where
  "representable r \<longleftrightarrow> (\<exists>m e. \<bar>m\<bar> < 2 ^ 53 \<and> r = of_int m * power_int 2 e)"

section \<open>Helpers\<close>

subsection \<open>formatTime\<close>

text \<open>
  \<^verbatim>\<open>
  function formatTime(words: number, wpm: number) {
    if (words === 0) return "0 min";
    const seconds = Math.round((words / wpm) * 60);
    const m = Math.floor(seconds / 60);
    const s = seconds % 60;
    if (m === 0) return `${s} sec`;
    if (s === 0) return `${m} min`;
    return `${m} min ${s} sec`;
  }
  \<close>
  Both arguments are counts (a number of words, a number of words per minute): natural
  numbers below \<open>2^53\<close>. \<open>words / wpm\<close> and the product with \<open>60\<close> are rounded, each
  to the nearest double, and so is \<open>seconds / 60\<close>; \<open>Math.round\<close>, \<open>Math.floor\<close>
  and \<open>%\<close> are exact. With \<open>wpm = 0\<close> and \<open>words > 0\<close> the quotient is \<open>Infinity\<close>,
  so \<open>m\<close> is \<open>Infinity\<close> and \<open>s\<close> is \<open>NaN\<close>, and the last template is returned.
\<close>

definition formatTime :: "nat \<Rightarrow> nat \<Rightarrow> jsstring" where
  "formatTime words wpm =
     (if words = 0 then js ''0 min''
      else if wpm = 0 then js ''Infinity min NaN sec''
      else
        let seconds = mathRound (double (double (of_nat words / of_nat wpm) * 60));
            m = \<lfloor>double (of_int seconds / 60)\<rfloor>;
            s = jsRem seconds 60
        in if m = 0 then showInt s @ js '' sec''
           else if s = 0 then showInt m @ js '' min''
           else showInt m @ js '' min '' @ showInt s @ js '' sec'')"

subsection \<open>countSyllables\<close>

text \<open>
  \<open>w.match(/[aeiouy]{1,2}/g)\<close>: the matcher scans from the left; at a vowel it takes
  that vowel and the next code unit too when it is a vowel (the quantifier is greedy), and
  goes on after the match; at any other code unit it moves one to the right. The result
  is the list of the matches (\<open>null\<close> when there is none, which the caller reads as
  \<open>0\<close> matches through \<open>vowels?.length ?? 0\<close>).
\<close>

fun matchVowels :: "jsstring \<Rightarrow> jsstring list" where
  "matchVowels [] = []"
| "matchVowels [c] = (if isVowel c then [c] # [] else [])"
| "matchVowels (c # d # s) =
     (if isVowel c then
        (if isVowel d then [c, d] # matchVowels s else [c] # matchVowels (d # s))
      else matchVowels (d # s))"

definition endsWith :: "jsstring \<Rightarrow> jsstring \<Rightarrow> bool" where
  "endsWith w suffix \<longleftrightarrow>
     length suffix \<le> length w \<and> drop (length w - length suffix) w = suffix"

text \<open>
  \<^verbatim>\<open>
  function countSyllables(word: string) {
    const w = word.toLowerCase().replace(/[^a-z]/g, "");
    if (!w) return 0;
    if (w.length <= 3) return 1;
    const vowels = w.match(/[aeiouy]{1,2}/g);
    let count = vowels?.length ?? 0;
    if (w.endsWith("e")) count -= 1;
    if (w.endsWith("le")) count += 1;
    return Math.max(1, count);
  }
  \<close>
\<close>

definition stripped :: "jsstring \<Rightarrow> jsstring" where
  "stripped word = filter isLower (toLowerCase word)"

definition countSyllables :: "jsstring \<Rightarrow> int" where
  "countSyllables word =
     (let w = stripped word in
      if w = [] then 0
      else if length w \<le> 3 then 1
      else
        let count0 = int (length (matchVowels w));
            count1 = (if endsWith w (js ''e'') then count0 - 1 else count0);
            count2 = (if endsWith w (js ''le'') then count1 + 1 else count1)
        in max 1 count2)"

subsection \<open>ordinal\<close>

text \<open>
  \<^verbatim>\<open>
  function ordinal(n: number) {
    const suffixes = ["th", "st", "nd", "rd"];
    const v = n % 100;
    return `${n}${suffixes[(v - 20) % 10] || suffixes[v] || suffixes[0]}`;
  }
  \<close>
  Reading an array at an index outside \<open>0..3\<close> gives \<open>undefined\<close> (\<open>None\<close>), and
  \<open>a || b\<close> is \<open>b\<close> when \<open>a\<close> is \<open>undefined\<close> or the empty string.
\<close>

definition suffixes :: "jsstring list" where
  "suffixes = [js ''th'', js ''st'', js ''nd'', js ''rd'']"

definition arrayGet :: "'a list \<Rightarrow> int \<Rightarrow> 'a option" where
  "arrayGet xs i = (if 0 \<le> i \<and> i < int (length xs) then Some (xs ! nat i) else None)"

definition orElse :: "jsstring option \<Rightarrow> jsstring option \<Rightarrow> jsstring option" where
  "orElse a b = (case a of Some s \<Rightarrow> (if s = [] then b else a) | None \<Rightarrow> b)"

definition renderOpt :: "jsstring option \<Rightarrow> jsstring" where
  "renderOpt a = (case a of Some s \<Rightarrow> s | None \<Rightarrow> js ''undefined'')"

definition ordinal :: "int \<Rightarrow> jsstring" where
  "ordinal n =
     (let v = jsRem n 100 in
      showInt n @
      renderOpt (orElse (orElse (arrayGet suffixes (jsRem (v - 20) 10)) (arrayGet suffixes v))
                        (arrayGet suffixes 0)))"

section \<open>Heatmap\<close>

subsection \<open>Splitting and matching\<close>

text \<open>\<open>[.!?]\<close>, and the class of \<open>analyzeSentence\<close>: comma, semicolon, colon, the em dash U+2014 and the en dash U+2013.\<close>

definition isTerminator :: "nat \<Rightarrow> bool" where
  "isTerminator c \<longleftrightarrow> c = 46 \<or> c = 33 \<or> c = 63"

definition isPunctuation :: "nat \<Rightarrow> bool" where
  "isPunctuation c \<longleftrightarrow> c = 44 \<or> c = 59 \<or> c = 58 \<or> c = 8212 \<or> c = 8211"

text \<open>
  \<open>s.split(/\s+/)\<close> and \<open>s.split(/[.!?]+/)\<close>: the separators are the maximal runs
  of code units of the class; the result holds the pieces between them, an empty piece
  before a leading separator and after a trailing one, and the one piece \<open>""\<close> for the
  empty string.
\<close>

function splitOn :: "(nat \<Rightarrow> bool) \<Rightarrow> jsstring \<Rightarrow> jsstring list" where
  "splitOn sep s =
     (let piece = takeWhile (\<lambda>c. \<not> sep c) s;
          rest = dropWhile (\<lambda>c. \<not> sep c) s
      in if rest = [] then [piece] else piece # splitOn sep (dropWhile sep rest))"
  by pat_completeness auto
termination
proof (relation "measure (\<lambda>(sep, s). length s)")
  show "wf (measure (\<lambda>(sep, s). length s))" by simp
next
  fix sep :: "nat \<Rightarrow> bool" and s piece rest :: jsstring
  assume r: "rest = dropWhile (\<lambda>c. \<not> sep c) s" and ne: "rest \<noteq> []"
  from ne have "sep (hd rest)"
    unfolding r using hd_dropWhile [of "\<lambda>c. \<not> sep c" s] by simp
  with ne have "length (dropWhile sep rest) < length rest"
    by (cases rest) (simp_all add: length_dropWhile_le less_Suc_eq_le)
  moreover have "length rest \<le> length s"
    unfolding r by (rule length_dropWhile_le)
  ultimately show "((sep, dropWhile sep rest), (sep, s)) \<in> measure (\<lambda>(sep, s). length s)"
    by simp
qed

declare splitOn.simps [simp del]

text \<open>
  \<open>text.match(/[^.!?]+[.!?]*/g)\<close>: at a terminator no match starts and the matcher
  moves one code unit to the right; elsewhere the match is the maximal run of
  non-terminators followed by the maximal run of terminators, and the search goes on
  after it. The result is the list of matches, \<open>null\<close> when there is none.
\<close>

function matchSentences :: "jsstring \<Rightarrow> jsstring list" where
  "matchSentences [] = []"
| "matchSentences (c # s) =
     (if isTerminator c then matchSentences s
      else
        let body = takeWhile (\<lambda>x. \<not> isTerminator x) (c # s);
            after = dropWhile (\<lambda>x. \<not> isTerminator x) (c # s);
            marks = takeWhile isTerminator after
        in (body @ marks) # matchSentences (dropWhile isTerminator after))"
  by pat_completeness auto
termination
proof (relation "measure length")
  show "wf (measure length)" by simp
next
  fix c :: nat and s :: jsstring
  show "(s, c # s) \<in> measure length" by simp
next
  fix c :: nat and s body after marks :: jsstring
  assume nt: "\<not> isTerminator c" and a: "after = dropWhile (\<lambda>x. \<not> isTerminator x) (c # s)"
  have "length (dropWhile isTerminator after) \<le> length after"
    by (rule length_dropWhile_le)
  also have "length after \<le> length s"
    unfolding a using nt by (simp add: length_dropWhile_le)
  finally show "(dropWhile isTerminator after, c # s) \<in> measure length" by simp
qed

declare matchSentences.simps [simp del]

subsection \<open>analyzeSentence\<close>

text \<open>
  \<^verbatim>\<open>
  function analyzeSentence(sentence: string) {
    const words = sentence.trim().split(/\s+/);
    const wordCount = words.length;
    const syllables = words.reduce((sum, w) => sum + countSyllables(w), 0);
    const avgSyllables = syllables / Math.max(wordCount, 1);
    const punctuation = (sentence.match(/[,;:\u2014\u2013]/g) ?? []).length;
    const score = wordCount * 0.5 + avgSyllables * 10 + punctuation * 2;
    if (score >= 35) return "danger";
    if (score >= 25) return "warn";
    return null;
  }
  \<close>
  (the two dashes of the class are written as escapes here). The result \<open>null\<close> is
  \<open>None\<close>. In \<open>sentenceScore\<close> the score is held as an exact rational, without
  the rounding of doubles; \<open>sentenceScoreDouble\<close> is the score with the rounding of
  each operation, as the program computes it. The two are on the same side of 25 and
  of 35 (\<open>sentenceScore_double\<close> below), so the level is the same with either.
\<close>

datatype level = Warn | Danger

definition sentenceScore :: "jsstring \<Rightarrow> rat" where
  "sentenceScore sentence =
     (let words = splitOn isSpace (trim sentence);
          wordCount = length words;
          syllables = foldl (\<lambda>sum w. sum + countSyllables w) 0 words;
          avgSyllables = of_int syllables / of_nat (max wordCount 1);
          punctuation = length (filter isPunctuation sentence)
      in of_nat wordCount * (1 / 2) + avgSyllables * 10 + of_nat punctuation * 2)"

definition sentenceScoreDouble :: "jsstring \<Rightarrow> rat" where
  "sentenceScoreDouble sentence =
     (let words = splitOn isSpace (trim sentence);
          wordCount = length words;
          syllables = foldl (\<lambda>sum w. sum + countSyllables w) 0 words;
          avgSyllables = double (of_int syllables / of_nat (max wordCount 1));
          punctuation = length (filter isPunctuation sentence)
      in double (double (double (of_nat wordCount * (1 / 2)) + double (avgSyllables * 10)) +
                 double (of_nat punctuation * 2)))"

definition analyzeSentence :: "jsstring \<Rightarrow> level option" where
  "analyzeSentence sentence =
     (let score = sentenceScore sentence
      in if score \<ge> 35 then Some Danger
         else if score \<ge> 25 then Some Warn
         else None)"

subsection \<open>The document tree\<close>

text \<open>
  The document is a ProseMirror node, a value of the editor library. A textblock is a
  block whose content is inline: text nodes and inline leaves. The other blocks hold
  blocks, or nothing (a leaf). The size of a text node is the length of its text, that of
  a leaf is 1, and that of any other node is 2 more than the size of its content.
  \<open>textContent\<close> is the concatenation of the text of the text nodes below a node.
\<close>

datatype inline = Text jsstring | InlineAtom

datatype pmnode = Textblock "inline list" | Block "pmnode list" | BlockAtom

record node =
  isTextblock :: bool
  isBlock :: bool
  textContent :: jsstring

fun inlineSize :: "inline \<Rightarrow> nat" where
  "inlineSize (Text t) = length t"
| "inlineSize InlineAtom = 1"

fun inlineText :: "inline \<Rightarrow> jsstring" where
  "inlineText (Text t) = t"
| "inlineText InlineAtom = []"

fun contentSize :: "pmnode \<Rightarrow> nat" where
  "contentSize (Textblock is) = sum_list (map inlineSize is)"
| "contentSize (Block cs) = sum_list (map (\<lambda>c. case c of BlockAtom \<Rightarrow> 1 | _ \<Rightarrow> 2 + contentSize c) cs)"
| "contentSize BlockAtom = 0"

definition nodeSize :: "pmnode \<Rightarrow> nat" where
  "nodeSize n = (case n of BlockAtom \<Rightarrow> 1 | _ \<Rightarrow> 2 + contentSize n)"

fun nodeText :: "pmnode \<Rightarrow> jsstring" where
  "nodeText (Textblock is) = concat (map inlineText is)"
| "nodeText (Block cs) = concat (map nodeText cs)"
| "nodeText BlockAtom = []"

definition childCount :: "pmnode \<Rightarrow> nat" where
  "childCount n = (case n of Textblock is \<Rightarrow> length is | Block cs \<Rightarrow> length cs | BlockAtom \<Rightarrow> 0)"

definition inlineNode :: "inline \<Rightarrow> node" where
  "inlineNode i = \<lparr>isTextblock = False, isBlock = False, textContent = inlineText i\<rparr>"

definition blockNode :: "pmnode \<Rightarrow> node" where
  "blockNode n =
     \<lparr>isTextblock = (case n of Textblock _ \<Rightarrow> True | _ \<Rightarrow> False), isBlock = True,
      textContent = nodeText n\<rparr>"

text \<open>
  \<open>doc.descendants(f)\<close> calls \<open>f(node, pos)\<close> for every node below \<open>doc\<close> in
  document order, a node before its children; \<open>pos\<close> is the position of the node, and
  the content of a node at \<open>pos\<close> starts at \<open>pos + 1\<close>. The callbacks of \<open>App.tsx\<close>
  return nothing, so the walk enters every node. The walk is held as the list of the
  calls it makes.
\<close>

fun walkInline :: "inline list \<Rightarrow> nat \<Rightarrow> (node \<times> nat) list" where
  "walkInline [] p = []"
| "walkInline (i # is) p = (inlineNode i, p) # walkInline is (p + inlineSize i)"

fun descend :: "pmnode \<Rightarrow> nat \<Rightarrow> (node \<times> nat) list"
  and descendList :: "pmnode list \<Rightarrow> nat \<Rightarrow> (node \<times> nat) list" where
  "descend (Textblock is) p = walkInline is p"
| "descend (Block cs) p = descendList cs p"
| "descend BlockAtom p = []"
| "descendList [] p = []"
| "descendList (n # ns) p =
     (blockNode n, p) # descend n (p + 1) @ descendList ns (p + nodeSize n)"

definition descendants :: "pmnode \<Rightarrow> (node \<times> nat) list" where
  "descendants doc = descend doc 0"

subsection \<open>getSentenceHeatmap\<close>

text \<open>
  \<^verbatim>\<open>
  function getSentenceHeatmap(doc: Node): SentenceHeat[] {
    const results: SentenceHeat[] = [];
    doc.descendants((node: Node, pos: number) => {
      if (!node.isTextblock || !node.textContent) return;
      const text = node.textContent;
      let offset = 0;
      const parts = text.match(/[^.!?]+[.!?]*/g);
      if (!parts) return;
      for (const part of parts) {
        const trimmed = part.trim();
        if (!trimmed) { offset += part.length; continue; }
        const level = analyzeSentence(trimmed);
        if (!level) { offset += part.length; continue; }
        const from = pos + 1 + offset;
        const to = from + trimmed.length;
        results.push({ from, to, level });
        offset += part.length;
      }
    });
    return results;
  }
  \<close>
  The loop over \<open>parts\<close> carries \<open>offset\<close> and \<open>results\<close>; the callback takes
  \<open>results\<close> and returns it as it is after the call.
\<close>

record SentenceHeat =
  span_from :: nat
  span_to :: nat
  span_level :: level

fun heatLoop :: "nat \<Rightarrow> nat \<Rightarrow> SentenceHeat list \<Rightarrow> jsstring list \<Rightarrow> SentenceHeat list" where
  "heatLoop pos offset results [] = results"
| "heatLoop pos offset results (part # parts) =
     (let trimmed = trim part in
      if trimmed = [] then heatLoop pos (offset + length part) results parts
      else
        case analyzeSentence trimmed of
          None \<Rightarrow> heatLoop pos (offset + length part) results parts
        | Some lv \<Rightarrow>
            let from = pos + 1 + offset;
                to = from + length trimmed
            in heatLoop pos (offset + length part)
                 (results @ [\<lparr>span_from = from, span_to = to, span_level = lv\<rparr>]) parts)"

definition heatCallback :: "SentenceHeat list \<Rightarrow> node \<times> nat \<Rightarrow> SentenceHeat list" where
  "heatCallback results call =
     (let nd = fst call; pos = snd call in
      if \<not> isTextblock nd \<or> textContent nd = [] then results
      else
        let text = textContent nd;
            parts = matchSentences text
        in if parts = [] then results else heatLoop pos 0 results parts)"

definition getSentenceHeatmap :: "pmnode \<Rightarrow> SentenceHeat list" where
  "getSentenceHeatmap doc = foldl heatCallback [] (descendants doc)"

section \<open>Statistics\<close>

subsection \<open>The selection walk of the paragraph count\<close>

text \<open>
  \<open>doc.nodesBetween(from, to, f)\<close> of the editor library walks the content of \<open>doc\<close>:
  \<^verbatim>\<open>
  nodesBetween(from, to, f, nodeStart = 0, parent) {
    for (let i = 0, pos = 0; pos < to; i++) {
      let child = this.content[i], end = pos + child.nodeSize
      if (end > from && f(child, nodeStart + pos, parent || null, i) !== false
          && child.content.size) {
        let start = pos + 1
        child.nodesBetween(Math.max(0, from - start),
                           Math.min(child.content.size, to - start),
                           f, nodeStart + start)
      }
      pos = end
    }
  }
  \<close>
  When \<open>to\<close> lies beyond the content, \<open>content[i]\<close> is \<open>undefined\<close> and reading its
  \<open>nodeSize\<close> raises a \<open>TypeError\<close>. Positions are natural numbers: \<open>from - start\<close>
  below stops at \<open>0\<close> as \<open>Math.max(0, from - start)\<close> does, and \<open>to - start\<close> is
  taken only where \<open>pos < to\<close>. The variable \<open>end\<close> is \<open>endPos\<close>.
\<close>

datatype error = TypeError

fun inlineBetween ::
  "inline list \<Rightarrow> nat \<Rightarrow> nat \<Rightarrow> nat \<Rightarrow> nat \<Rightarrow> error + (node \<times> nat) list" where
  "inlineBetween [] pos from to nodeStart = (if \<not> pos < to then Inr [] else Inl TypeError)"
| "inlineBetween (child # rest) pos from to nodeStart =
     (if \<not> pos < to then Inr []
      else
        let endPos = pos + inlineSize child;
            here = (if endPos > from then [(inlineNode child, nodeStart + pos)] else [])
        in case inlineBetween rest endPos from to nodeStart of
             Inl e \<Rightarrow> Inl e
           | Inr later \<Rightarrow> Inr (here @ later))"

fun fragmentBetween ::
  "pmnode list \<Rightarrow> nat \<Rightarrow> nat \<Rightarrow> nat \<Rightarrow> nat \<Rightarrow> error + (node \<times> nat) list"
  and contentBetween :: "pmnode \<Rightarrow> nat \<Rightarrow> nat \<Rightarrow> nat \<Rightarrow> error + (node \<times> nat) list" where
  "fragmentBetween [] pos from to nodeStart = (if \<not> pos < to then Inr [] else Inl TypeError)"
| "fragmentBetween (child # rest) pos from to nodeStart =
     (if \<not> pos < to then Inr []
      else
        let endPos = pos + nodeSize child;
            start = pos + 1
        in case
             (if endPos > from then
                (if contentSize child \<noteq> 0 then
                   (case contentBetween child (from - start)
                           (min (contentSize child) (to - start)) (nodeStart + start) of
                      Inl e \<Rightarrow> Inl e
                    | Inr below \<Rightarrow> Inr ((blockNode child, nodeStart + pos) # below))
                 else Inr [(blockNode child, nodeStart + pos)])
              else Inr [])
           of
             Inl e \<Rightarrow> Inl e
           | Inr here \<Rightarrow>
               (case fragmentBetween rest endPos from to nodeStart of
                  Inl e \<Rightarrow> Inl e
                | Inr later \<Rightarrow> Inr (here @ later)))"
| "contentBetween (Textblock is) from to nodeStart = inlineBetween is 0 from to nodeStart"
| "contentBetween (Block cs) from to nodeStart = fragmentBetween cs 0 from to nodeStart"
| "contentBetween BlockAtom from to nodeStart = (if \<not> 0 < to then Inr [] else Inl TypeError)"

definition nodesBetween :: "pmnode \<Rightarrow> nat \<Rightarrow> nat \<Rightarrow> error + (node \<times> nat) list" where
  "nodesBetween d from to = contentBetween d from to 0"

subsection \<open>The editor and the paragraph count\<close>

text \<open>
  \<^verbatim>\<open>
  const paragraphs = (() => {
    if (!editor) return 0;
    const { from, to } = editor.state.selection;
    // No selection -> full document
    if (from === to) { return editor.state.doc.childCount; }
    let count = 0;
    editor.state.doc.nodesBetween(from, to, (node) => {
      if (node.isBlock) count += 1;
    });
    return count;
  })();
  \<close>
  The editor is \<open>null\<close> (\<open>None\<close>) until the editing surface exists.
\<close>

record editor =
  selection_from :: nat
  selection_to :: nat
  doc :: pmnode

definition countParagraphs :: "editor option \<Rightarrow> error + nat" where
  "countParagraphs ed =
     (case ed of
        None \<Rightarrow> Inr 0
      | Some e \<Rightarrow>
          if selection_from e = selection_to e then Inr (childCount (doc e))
          else
            case nodesBetween (doc e) (selection_from e) (selection_to e) of
              Inl err \<Rightarrow> Inl err
            | Inr calls \<Rightarrow>
                Inr (foldl (\<lambda>count call. if isBlock (fst call) then count + 1 else count) 0 calls))"

subsection \<open>The frequency tally\<close>

definition STOP_WORDS :: "jsstring list" where
  "STOP_WORDS = map js
     [''the'', ''and'', ''a'', ''to'', ''of'', ''in'', ''is'', ''it'', ''that'', ''on'', ''for'',
      ''with'', ''as'', ''at'', ''this'', ''by'', ''an'', ''be'', ''are'', ''from'', ''or'', ''was'',
      ''were'', ''but'', ''not'']"

text \<open>
  \<^verbatim>\<open>
  const freq: Record<string, number> = {};
  for (const word of words) {
    const key = word.toLowerCase().replace(/[^a-z0-9]/g, "");
    if (!key || STOP_WORDS.has(key)) continue;
    freq[key] = (freq[key] ?? 0) + 1;
  }
  \<close>
  \<open>freq\<close> is an ordinary object: the list of its own properties in the order of their
  creation; writing an existing property keeps its place. Reading \<open>freq[key]\<close> for a
  key that is not an own property goes to \<open>Object.prototype\<close>, and the one property
  there whose name is made of \<open>[a-z0-9]\<close> only is \<open>constructor\<close>, the function
  \<open>Object\<close>. Then \<open>(freq[key] ?? 0) + 1\<close> is the text of that function followed by
  \<open>1\<close>, a string, and every later \<open>+ 1\<close> appends one more \<open>1\<close>. \<open>ObjectText k\<close> is
  that string with \<open>k\<close> digits at its end; as a number it is \<open>NaN\<close>.
\<close>

datatype jsval = Num nat | ObjectText nat

fun plusOne :: "jsval \<Rightarrow> jsval" where
  "plusOne (Num n) = Num (n + 1)"
| "plusOne (ObjectText k) = ObjectText (k + 1)"

fun setProp :: "(jsstring \<times> jsval) list \<Rightarrow> jsstring \<Rightarrow> jsval \<Rightarrow> (jsstring \<times> jsval) list" where
  "setProp [] key v = [(key, v)]"
| "setProp (p # ps) key v = (if fst p = key then (key, v) # ps else p # setProp ps key v)"

definition nextCount :: "(jsstring \<times> jsval) list \<Rightarrow> jsstring \<Rightarrow> jsval" where
  "nextCount freq key =
     (case map_of freq key of
        Some v \<Rightarrow> plusOne v
      | None \<Rightarrow> if key = js ''constructor'' then ObjectText 1 else Num 1)"

definition normalizeKey :: "jsstring \<Rightarrow> jsstring" where
  "normalizeKey w = filter isLowerOrDigit (toLowerCase w)"

definition tallyWord :: "(jsstring \<times> jsval) list \<Rightarrow> jsstring \<Rightarrow> (jsstring \<times> jsval) list" where
  "tallyWord freq w =
     (let key = normalizeKey w in
      if key = [] \<or> key \<in> set STOP_WORDS then freq
      else setProp freq key (nextCount freq key))"

subsection \<open>The keyword list\<close>

text \<open>
  \<open>Object.entries(freq)\<close> lists the own properties in the order of the language: first
  the keys that are array indices (the decimal numeral, without a leading zero, of an
  integer below \<open>2^32 - 1\<close>) by ascending value, then the other keys in the order of their
  creation.
\<close>

definition parseNat :: "jsstring \<Rightarrow> nat" where
  "parseNat key = foldl (\<lambda>n c. 10 * n + (c - 48)) 0 key"

definition isArrayIndex :: "jsstring \<Rightarrow> bool" where
  "isArrayIndex key \<longleftrightarrow>
     key \<noteq> [] \<and> list_all (\<lambda>c. 48 \<le> c \<and> c \<le> 57) key \<and> (key = [48] \<or> hd key \<noteq> 48) \<and>
     parseNat key < 4294967295"

definition objectEntries :: "(jsstring \<times> jsval) list \<Rightarrow> (jsstring \<times> jsval) list" where
  "objectEntries freq =
     sort_key (\<lambda>e. parseNat (fst e)) (filter (\<lambda>e. isArrayIndex (fst e)) freq) @
     filter (\<lambda>e. \<not> isArrayIndex (fst e)) freq"

text \<open>
  \<open>.sort((a, b) => b[1] - a[1])\<close>: the comparison is \<open>NaN\<close> when one of the two values
  is the string above, which the sort reads as \<open>0\<close>. The sort of the language is stable;
  it is held as the insertion sort that puts an entry behind the entries its comparison
  with them is positive for. Where the comparison is consistent (every count is a
  number, or every comparison is \<open>0\<close>) a stable sort has one result, and this is it.
  Where a \<open>NaN\<close> makes it inconsistent the language leaves the order to the engine;
  the list here is then one such order, and nothing is stated below about the order of
  the keywords of such a text.
\<close>

definition byCountDesc :: "jsstring \<times> jsval \<Rightarrow> jsstring \<times> jsval \<Rightarrow> int" where
  "byCountDesc a b =
     (case (snd b, snd a) of
        (Num y, Num x) \<Rightarrow> int y - int x
      | _ \<Rightarrow> 0)"

fun insertBy :: "('a \<Rightarrow> 'a \<Rightarrow> int) \<Rightarrow> 'a \<Rightarrow> 'a list \<Rightarrow> 'a list" where
  "insertBy cmp x [] = [x]"
| "insertBy cmp x (y # ys) = (if cmp x y > 0 then y # insertBy cmp x ys else x # y # ys)"

definition sortBy :: "('a \<Rightarrow> 'a \<Rightarrow> int) \<Rightarrow> 'a list \<Rightarrow> 'a list" where
  "sortBy cmp xs = foldr (insertBy cmp) xs []"

text \<open>
  \<open>((count / words.length) * 100).toFixed(1)\<close>: the quotient is \<open>NaN\<close> for the string
  above and would be \<open>Infinity\<close> for no words; otherwise the quotient and the product
  are rounded to doubles. \<open>toFixed(1)\<close> works on the exact value of the double it is
  given: it renders a number that is not negative with one decimal, the nearest tenth of
  that value, a tie going up.
\<close>

datatype jsnumber = Finite rat | PosInfinity | NaN

definition density :: "nat \<Rightarrow> jsval \<Rightarrow> jsnumber" where
  "density wordsLength count =
     (case count of
        Num c \<Rightarrow> if wordsLength = 0 then PosInfinity
                 else Finite (double (double (of_nat c / of_nat wordsLength) * 100))
      | ObjectText k \<Rightarrow> NaN)"

definition toFixed1 :: "jsnumber \<Rightarrow> jsstring" where
  "toFixed1 x =
     (case x of
        Finite q \<Rightarrow> (let n = \<lfloor>q * 10 + 1 / 2\<rfloor> in showInt (n div 10) @ js ''.'' @ showInt (n mod 10))
      | PosInfinity \<Rightarrow> js ''Infinity''
      | NaN \<Rightarrow> js ''NaN'')"

record keyword =
  word :: jsstring
  density_text :: jsstring

definition keywordEntries :: "jsstring list \<Rightarrow> (jsstring \<times> jsval) list" where
  "keywordEntries ws = take 10 (sortBy byCountDesc (objectEntries (foldl tallyWord [] ws)))"

subsection \<open>stats\<close>

text \<open>
  \<^verbatim>\<open>
  const stats = useMemo(() => {
    const activeText = selectionText || textSnapshot;
    const trimmed = activeText.trim();
    const words = trimmed ? trimmed.split(/\s+/) : [];
    const sentences = trimmed ? trimmed.split(/[.!?]+/).filter(Boolean) : [];
    const syllables = words.reduce((sum, word) => sum + countSyllables(word), 0);
    const grade =
      words.length && sentences.length
        ? 0.39 * (words.length / sentences.length) +
          11.8 * (syllables / words.length) - 15.59
        : 0;
    const freq = ...;  const paragraphs = ...;
    return {
      words: words.length,
      characters: trimmed.replace(/\s/g, "").length,
      charactersWithFormatting: trimmed.length,
      sentences: sentences.length,
      paragraphs,
      readingTime: formatTime(words.length, READING_WPM),
      speakingTime: formatTime(words.length, SPEAKING_WPM),
      readingGrade: grade > 0 ? ordinal(Math.max(1, Math.round(grade))) : "\u2014",
      keywords: Object.entries(freq)
        .sort((a, b) => b[1] - a[1])
        .slice(0, 10)
        .map(([word, count]) => ({
          word,
          density: ((count / words.length) * 100).toFixed(1),
        })),
    };
  }, [textSnapshot, selectionText, editor]);
  \<close>
  The closure reads \<open>selectionText\<close>, \<open>textSnapshot\<close> and \<open>editor\<close>; they are the
  arguments here. The field \<open>keywords\<close> of the result is \<open>topKeywords\<close>, the field \<open>density\<close> of
  a keyword is \<open>density_text\<close>, and the string of \<open>readingGrade\<close> for no grade is the em dash U+2014.
\<close>

definition READING_WPM :: nat where
  "READING_WPM = 238"

definition SPEAKING_WPM :: nat where
  "SPEAKING_WPM = 158"

definition unavailable :: jsstring where
  "unavailable = [8212]"

record statistics =
  words :: nat
  characters :: nat
  charactersWithFormatting :: nat
  sentences :: nat
  paragraphs :: nat
  readingTime :: jsstring
  speakingTime :: jsstring
  readingGrade :: jsstring
  topKeywords :: "keyword list"

definition activeWords :: "jsstring \<Rightarrow> jsstring list" where
  "activeWords trimmed = (if trimmed \<noteq> [] then splitOn isSpace trimmed else [])"

definition activeSentences :: "jsstring \<Rightarrow> jsstring list" where
  "activeSentences trimmed =
     (if trimmed \<noteq> [] then filter (\<lambda>s. s \<noteq> []) (splitOn isTerminator trimmed) else [])"

text \<open>
  The reading grade: the literals \<open>0.39\<close>, \<open>11.8\<close> and \<open>15.59\<close> are the doubles
  nearest to these decimals, and each of the six operations is rounded.
\<close>

definition gradeOf :: "nat \<Rightarrow> nat \<Rightarrow> int \<Rightarrow> rat" where
  "gradeOf wordsLength sentencesLength syllables =
     (if wordsLength \<noteq> 0 \<and> sentencesLength \<noteq> 0
      then double
             (double (double (double (39 / 100) *
                              double (of_nat wordsLength / of_nat sentencesLength)) +
                      double (double (118 / 10) *
                              double (of_int syllables / of_nat wordsLength))) -
              double (1559 / 100))
      else 0)"

definition stats :: "jsstring \<Rightarrow> jsstring \<Rightarrow> editor option \<Rightarrow> error + statistics" where
  "stats selectionText textSnapshot ed =
     (let activeText = (if selectionText \<noteq> [] then selectionText else textSnapshot);
          trimmed = trim activeText;
          ws = activeWords trimmed;
          ss = activeSentences trimmed;
          syllables = foldl (\<lambda>sum w. sum + countSyllables w) 0 ws;
          grade = gradeOf (length ws) (length ss) syllables
      in case countParagraphs ed of
           Inl e \<Rightarrow> Inl e
         | Inr ps \<Rightarrow>
             Inr \<lparr>words = length ws,
                  characters = length (filter (\<lambda>c. \<not> isSpace c) trimmed),
                  charactersWithFormatting = length trimmed,
                  sentences = length ss,
                  paragraphs = ps,
                  readingTime = formatTime (length ws) READING_WPM,
                  speakingTime = formatTime (length ws) SPEAKING_WPM,
                  readingGrade =
                    (if grade > 0 then ordinal (max 1 (mathRound grade)) else unavailable),
                  topKeywords =
                    map (\<lambda>(w, count). \<lparr>word = w,
                                         density_text = toFixed1 (density (length ws) count)\<rparr>)
                      (keywordEntries ws)\<rparr>)"

section \<open>The specification's wording\<close>

text \<open>
  The definitions of this section do not come from \<open>App.tsx\<close>: they write down the
  wording of the specification, to be compared with the code, and name the properties
  and the example inputs of the theorems below.
\<close>

subsection \<open>Syllables\<close>

text \<open>
  ``Count non-overlapping runs of 1--2 consecutive vowel characters'': a maximal run of
  \<open>k\<close> vowels holds \<open>(k + 1) div 2\<close> of them. \<open>runsAcc k s\<close> counts them in \<open>s\<close>
  when \<open>k\<close> vowels stand right before \<open>s\<close>.
\<close>

fun runsAcc :: "nat \<Rightarrow> jsstring \<Rightarrow> nat" where
  "runsAcc k [] = (k + 1) div 2"
| "runsAcc k (c # s) = (if isVowel c then runsAcc (k + 1) s else (k + 1) div 2 + runsAcc 0 s)"

definition vowelGroups :: "jsstring \<Rightarrow> nat" where
  "vowelGroups w = runsAcc 0 w"

definition countSyllables_spec :: "jsstring \<Rightarrow> int" where
  "countSyllables_spec w0 =
     (let w = filter isLower (toLowerCase w0) in
      if w = [] then 0
      else if length w \<le> 3 then 1
      else max 1 (int (vowelGroups w)
                  - (if endsWith w (js ''e'') then 1 else 0)
                  + (if endsWith w (js ''le'') then 1 else 0)))"

definition isAsciiLetter :: "nat \<Rightarrow> bool" where
  "isAsciiLetter c \<longleftrightarrow> (65 \<le> c \<and> c \<le> 90) \<or> (97 \<le> c \<and> c \<le> 122)"

subsection \<open>Ordinals\<close>

text \<open>``Teens are th, else last digit 1/2/3 gives st/nd/rd'', and th for every other
  last digit.\<close>

definition ordinalSuffix_spec :: "nat \<Rightarrow> jsstring" where
  "ordinalSuffix_spec n =
     (if 10 < n mod 100 \<and> n mod 100 < 20 then js ''th''
      else if n mod 10 = 1 then js ''st''
      else if n mod 10 = 2 then js ''nd''
      else if n mod 10 = 3 then js ''rd''
      else js ''th'')"

subsection \<open>Spans\<close>

text \<open>Two spans in this order do not overlap when the first ends where the second
  starts, or before; a span lies in a range when it is not empty and inside it.\<close>

definition disjointBefore :: "SentenceHeat \<Rightarrow> SentenceHeat \<Rightarrow> bool" where
  "disjointBefore a b \<longleftrightarrow> span_to a \<le> span_from b"

definition withinRange :: "nat \<Rightarrow> nat \<Rightarrow> SentenceHeat \<Rightarrow> bool" where
  "withinRange lo hi s \<longleftrightarrow> lo \<le> span_from s \<and> span_from s < span_to s \<and> span_to s \<le> hi"

text \<open>A document of one paragraph with two sentences, both heavy with punctuation.\<close>

definition exampleText :: jsstring where
  "exampleText = js ''A: b, c; d, e: f, g; h, i: j, k; l, m. N: o, p; q, r: s, t; u, v: w, x; y, z.''"

definition exampleDoc :: pmnode where
  "exampleDoc = Block [Textblock [Text exampleText]]"

text \<open>A paragraph that opens with an ellipsis, followed by the first of these
  sentences.\<close>

definition leadingText :: jsstring where
  "leadingText = js ''...A: b, c; d, e: f, g; h, i: j, k; l, m.''"

definition leadingDoc :: pmnode where
  "leadingDoc = Block [Textblock [Text leadingText]]"

subsection \<open>The risk score\<close>

text \<open>
  ``\<open>wordCount\<close> = number of whitespace-delimited tokens'': the tokens are the maximal
  runs of code units that are not whitespace. The score of the specification is written
  with them; the two sentences of its scenario follow, and a sentence of the middle
  tier.
\<close>

function tokenizeWords_spec :: "jsstring \<Rightarrow> jsstring list" where
  "tokenizeWords_spec [] = []"
| "tokenizeWords_spec (c # s) =
     (if isSpace c then tokenizeWords_spec s
      else (c # takeWhile (\<lambda>x. \<not> isSpace x) s) #
           tokenizeWords_spec (dropWhile (\<lambda>x. \<not> isSpace x) s))"
  by pat_completeness auto
termination
proof (relation "measure length")
  show "wf (measure length)" by simp
next
  fix c :: nat and s :: jsstring
  show "(s, c # s) \<in> measure length" by simp
next
  fix c :: nat and s :: jsstring
  have "length (dropWhile (\<lambda>x. \<not> isSpace x) s) \<le> length s"
    by (rule length_dropWhile_le)
  then show "(dropWhile (\<lambda>x. \<not> isSpace x) s, c # s) \<in> measure length" by simp
qed

definition riskScore_spec :: "jsstring \<Rightarrow> rat" where
  "riskScore_spec sentence =
     (let tokens = tokenizeWords_spec sentence;
          wordCount = length tokens;
          syllableTotal = sum_list (map countSyllables tokens);
          avgSyllablesPerWord = of_int syllableTotal / of_nat (max wordCount 1);
          punctuationCount = length (filter isPunctuation sentence)
      in of_nat wordCount * (1 / 2) + avgSyllablesPerWord * 10 + of_nat punctuationCount * 2)"

text \<open>``\<open>score \<ge> 35\<close> is Danger; \<open>25 \<le> score < 35\<close> is Warn; else None.''\<close>

definition riskTier_spec :: "rat \<Rightarrow> level option" where
  "riskTier_spec score =
     (if 35 \<le> score then Some Danger
      else if 25 \<le> score \<and> score < 35 then Some Warn
      else None)"

definition scenarioFirst :: jsstring where
  "scenarioFirst = js ''This is a short sentence.''"

definition scenarioSecond :: jsstring where
  "scenarioSecond = js ''But here is a much longer and more syntactically complicated sentence, containing several clauses, semicolons; and extra punctuation: to push its score past the danger threshold.''"

definition scenarioText :: jsstring where
  "scenarioText = scenarioFirst @ js '' '' @ scenarioSecond"

definition warnSentence :: jsstring where
  "warnSentence = js ''A: b, c; d, e: f, g.''"

subsection \<open>Statistics of an empty text\<close>

text \<open>
  The result for a text that is empty once trimmed, with the paragraph count left open;
  a selection that lies inside the document; the editor of an empty document (one empty
  paragraph, the cursor in it) and an editor whose selection runs over two empty
  paragraphs.
\<close>

definition emptyStatistics :: "nat \<Rightarrow> statistics" where
  "emptyStatistics ps =
     \<lparr>words = 0, characters = 0, charactersWithFormatting = 0, sentences = 0, paragraphs = ps,
      readingTime = js ''0 min'', speakingTime = js ''0 min'', readingGrade = unavailable,
      topKeywords = []\<rparr>"

definition selectionInside :: "editor option \<Rightarrow> bool" where
  "selectionInside ed =
     (case ed of
        None \<Rightarrow> True
      | Some e \<Rightarrow> selection_from e = selection_to e \<or> selection_to e \<le> contentSize (doc e))"

definition emptyDocEditor :: editor where
  "emptyDocEditor = \<lparr>selection_from = 1, selection_to = 1, doc = Block [Textblock []]\<rparr>"

definition twoParagraphsEditor :: editor where
  "twoParagraphsEditor = \<lparr>selection_from = 1, selection_to = 3, doc = Block [Textblock [], Textblock []]\<rparr>"

subsection \<open>The ranking of the keywords\<close>

text \<open>
  The keys of the active text are its words, normalised, in the order of the text. The
  frequency of a key is the number of words that normalise to it, and a key is first
  seen at the index of its first word. \<open>keyBefore\<close> is the order in which the language
  enumerates the keys of an object: array indices first, by value, then the other keys
  as first seen. \<open>rankedBefore\<close> puts the higher frequency first and leaves equal
  frequencies in that order. A key is kept when it is not empty and not a stop word.
\<close>

definition activeKeys :: "jsstring \<Rightarrow> jsstring \<Rightarrow> jsstring list" where
  "activeKeys sel snap =
     map normalizeKey (activeWords (trim (if sel \<noteq> [] then sel else snap)))"

definition frequency :: "jsstring list \<Rightarrow> jsstring \<Rightarrow> nat" where
  "frequency keys k = count_list keys k"

definition firstSeen :: "jsstring list \<Rightarrow> jsstring \<Rightarrow> nat" where
  "firstSeen keys k = length (takeWhile (\<lambda>x. x \<noteq> k) keys)"

definition keyBefore :: "jsstring list \<Rightarrow> jsstring \<Rightarrow> jsstring \<Rightarrow> bool" where
  "keyBefore keys a b \<longleftrightarrow>
     (isArrayIndex a \<and> isArrayIndex b \<and> parseNat a \<le> parseNat b) \<or>
     (isArrayIndex a \<and> \<not> isArrayIndex b) \<or>
     (\<not> isArrayIndex a \<and> \<not> isArrayIndex b \<and> firstSeen keys a < firstSeen keys b)"

definition rankedBefore :: "jsstring list \<Rightarrow> jsstring \<Rightarrow> jsstring \<Rightarrow> bool" where
  "rankedBefore keys a b \<longleftrightarrow>
     frequency keys b < frequency keys a \<or>
     (frequency keys a = frequency keys b \<and> keyBefore keys a b)"

definition keep :: "jsstring \<Rightarrow> bool" where
  "keep k \<longleftrightarrow> k \<noteq> [] \<and> k \<notin> set STOP_WORDS"

text \<open>What the tally holds after the words with the keys \<open>keys\<close>, as long as none of
  them is \<open>constructor\<close>: each kept key once, with its frequency, in first-seen
  order.\<close>

definition tallied :: "jsstring list \<Rightarrow> (jsstring \<times> jsval) list \<Rightarrow> bool" where
  "tallied keys freq \<longleftrightarrow>
     distinct (map fst freq) \<and>
     (\<forall>k. map_of freq k =
        (if keep k \<and> k \<in> set keys then Some (Num (count_list keys k)) else None)) \<and>
     sorted_wrt (\<lambda>a b. firstSeen keys a < firstSeen keys b) (map fst freq)"

text \<open>Three texts: one with a repeated word and numbers, one with a word before a
  number, one with the word \<open>constructor\<close>.\<close>

definition rankedText :: jsstring where
  "rankedText = js ''Zebra 10 apple 9 zebra the 10''"

definition chapterText :: jsstring where
  "chapterText = js ''Chapter 7''"

definition constructorText :: jsstring where
  "constructorText = js ''The constructor runs first.''"

text \<open>The words of the three texts.\<close>

definition rankedWords :: "jsstring list" where
  "rankedWords = map js [''Zebra'', ''10'', ''apple'', ''9'', ''zebra'', ''the'', ''10'']"

definition chapterWords :: "jsstring list" where
  "chapterWords = map js [''Chapter'', ''7'']"

definition constructorWords :: "jsstring list" where
  "constructorWords = map js [''The'', ''constructor'', ''runs'', ''first.'']"

section \<open>Evaluation on literals\<close>

lemmas eval_strings = js_def trim_def isSpace_def isTerminator_def isPunctuation_def isLower_def
  isLowerOrDigit_def isVowel_def lowerUnit_def toLowerCase_def endsWith_def
  splitOn.simps matchSentences.simps Let_def

lemmas eval_sentence = eval_strings stripped_def countSyllables_def sentenceScore_def
  analyzeSentence_def

section \<open>The helpers\<close>

subsection \<open>Rounding to a double\<close>

text \<open>\<open>exponent\<close> finds the binade of a positive number.\<close>

lemma bitLength_bounds: "0 < n \<Longrightarrow> 2 ^ (bitLength n - 1) \<le> n \<and> n < 2 ^ bitLength n"
proof (induction n rule: bitLength.induct)
  case (1 n)
  show ?case
  proof (cases "n div 2 = 0")
    case True
    with 1(2) have "n = 1" by presburger
    then show ?thesis by (simp add: bitLength.simps [of "Suc 0"] bitLength.simps [of 0])
  next
    case False
    then have pos: "0 < n div 2" by simp
    define b where "b = bitLength (n div 2)"
    have ih: "2 ^ (b - 1) \<le> n div 2 \<and> n div 2 < 2 ^ b"
      using 1(1) [OF _ pos] 1(2) unfolding b_def by simp
    have b1: "1 \<le> b"
    proof (rule ccontr)
      assume "\<not> 1 \<le> b"
      then have "b = 0" by simp
      with ih pos show False by simp
    qed
    have bn: "bitLength n = Suc b"
      using 1(2) unfolding b_def by (subst bitLength.simps) simp
    have "(2::nat) ^ b = 2 * 2 ^ (b - 1)" using b1 by (cases b) simp_all
    with ih have lo: "2 ^ b \<le> n" by presburger
    have "Suc (n div 2) \<le> 2 ^ b" using ih by simp
    then have "2 * Suc (n div 2) \<le> 2 * 2 ^ b" by simp
    moreover have "n < 2 * Suc (n div 2)" by presburger
    ultimately have hi: "n < 2 ^ Suc b" by simp
    from lo hi show ?thesis by (simp add: bn)
  qed
qed

lemma exponent_bounds:
  assumes "0 < x"
  shows "power_int 2 (exponent x) \<le> x \<and> x < power_int 2 (exponent x + 1)"
proof (cases "1 \<le> x")
  case True
  define N where "N = nat \<lfloor>x\<rfloor>"
  have f1: "1 \<le> \<lfloor>x\<rfloor>" using True by simp
  then have Npos: "0 < N" unfolding N_def by simp
  have Nf: "int N = \<lfloor>x\<rfloor>" using f1 unfolding N_def by simp
  note b = bitLength_bounds [OF Npos]
  have k1: "1 \<le> bitLength N"
  proof (rule ccontr)
    assume "\<not> 1 \<le> bitLength N"
    then have "bitLength N = 0" by simp
    with b Npos show False by simp
  qed
  have e: "exponent x = int (bitLength N - 1)"
    using True k1 unfolding exponent_def N_def by simp
  have "(of_nat (2 ^ (bitLength N - 1)) :: rat) \<le> of_nat N" using b by (simp only: of_nat_le_iff)
  also have "(of_nat N :: rat) = of_int \<lfloor>x\<rfloor>" using Nf by (metis of_int_of_nat_eq)
  also have "\<dots> \<le> x" by simp
  finally have lo: "power_int 2 (exponent x) \<le> x" by (simp add: e)
  have "\<lfloor>x\<rfloor> + 1 \<le> int (2 ^ bitLength N)" using b Nf by linarith
  then have "(of_int (\<lfloor>x\<rfloor> + 1) :: rat) \<le> of_int (int (2 ^ bitLength N))"
    by (simp only: of_int_le_iff)
  moreover have "x < of_int (\<lfloor>x\<rfloor> + 1)" by linarith
  ultimately have "x < (2::rat) ^ bitLength N" by simp
  moreover have "exponent x + 1 = int (bitLength N)" using e k1 by simp
  ultimately have hi: "x < power_int 2 (exponent x + 1)" by simp
  from lo hi show ?thesis ..
next
  case False
  define y where "y = 1 / x"
  have y1: "1 < y" using False assms unfolding y_def by simp
  define N where "N = nat (\<lceil>y\<rceil> - 1)"
  have c2: "2 \<le> \<lceil>y\<rceil>" using y1 by linarith
  then have Npos: "0 < N" unfolding N_def by simp
  have Nc: "int N = \<lceil>y\<rceil> - 1" using c2 unfolding N_def by simp
  note b = bitLength_bounds [OF Npos]
  define k where "k = bitLength N"
  have k1: "1 \<le> k"
  proof (rule ccontr)
    assume "\<not> 1 \<le> k"
    then have "k = 0" by simp
    with b Npos show False by (simp add: k_def)
  qed
  have e: "exponent x = - int k"
    using False unfolding exponent_def N_def k_def y_def by simp
  have iN: "int N < 2 ^ k" "2 ^ (k - 1) \<le> int N" using b unfolding k_def by simp_all
  have "\<lceil>y\<rceil> \<le> 2 ^ k" using iN Nc by linarith
  then have "(of_int \<lceil>y\<rceil> :: rat) \<le> of_int (2 ^ k)" by (simp only: of_int_le_iff)
  then have "(of_int \<lceil>y\<rceil> :: rat) \<le> 2 ^ k" by simp
  with le_of_int_ceiling [of y] have yle: "y \<le> 2 ^ k" by (rule order_trans)
  have "2 ^ (k - 1) \<le> \<lceil>y\<rceil> - 1" using iN Nc by linarith
  then have "(of_int (2 ^ (k - 1)) :: rat) \<le> of_int (\<lceil>y\<rceil> - 1)"
    by (simp only: of_int_le_iff)
  then have "(2::rat) ^ (k - 1) \<le> of_int (\<lceil>y\<rceil> - 1)" by simp
  moreover have "of_int (\<lceil>y\<rceil> - 1) < y" by linarith
  ultimately have ygt: "2 ^ (k - 1) < y" by (rule le_less_trans)
  have ypos: "0 < y" using y1 by simp
  have yx: "1 / y = x" unfolding y_def by simp
  have lo: "power_int 2 (exponent x) \<le> x"
  proof -
    have "power_int 2 (exponent x) = 1 / (2::rat) ^ k"
      unfolding e by (simp add: power_int_minus divide_inverse)
    moreover have "1 / (2::rat) ^ k \<le> 1 / y" using yle ypos by (simp add: frac_le)
    ultimately show ?thesis using yx by simp
  qed
  have hi: "x < power_int 2 (exponent x + 1)"
  proof -
    have "exponent x + 1 = - int (k - 1)" using e k1 by simp
    then have "power_int 2 (exponent x + 1) = 1 / (2::rat) ^ (k - 1)"
      by (simp add: power_int_minus divide_inverse)
    moreover have "1 / y < 1 / (2::rat) ^ (k - 1)" using ygt by (simp add: frac_less2)
    ultimately show ?thesis using yx by simp
  qed
  from lo hi show ?thesis ..
qed


text \<open>
  For \<open>x > 0\<close>, \<open>double x\<close> is a double and no double is nearer to \<open>x\<close>; no double
  lies strictly between \<open>x\<close> and \<open>double x\<close>: a double above \<open>x\<close> is above
  \<open>double x\<close> too, and one below is below. So \<open>double\<close> leaves a double as it is,
  and its error is at most \<open>x / 2^53\<close>.
\<close>

lemma roundHalfEven_bounds:
  "\<lfloor>x\<rfloor> \<le> roundHalfEven x \<and> roundHalfEven x \<le> \<lceil>x\<rceil> \<and> \<bar>of_int (roundHalfEven x) - x\<bar> \<le> 1 / 2"
proof -
  define f where "f = \<lfloor>x\<rfloor>"
  define d where "d = x - of_int f"
  have d: "0 \<le> d" "d < 1" unfolding d_def f_def by linarith+
  have x: "x = of_int f + d" unfolding d_def by simp
  have c: "0 < d \<Longrightarrow> \<lceil>x\<rceil> = f + 1"
    unfolding x using d by (intro ceiling_unique) simp_all
  have f: "f \<le> \<lceil>x\<rceil>" unfolding f_def by (rule floor_le_ceiling)
  have r: "roundHalfEven x =
     (if d < 1 / 2 then f else if 1 / 2 < d then f + 1 else if even f then f else f + 1)"
    unfolding roundHalfEven_def Let_def d_def f_def ..
  consider "roundHalfEven x = f" "d \<le> 1 / 2" | "roundHalfEven x = f + 1" "1 / 2 \<le> d"
    unfolding r by (cases "d < 1 / 2"; cases "1 / 2 < d"; cases "even f") simp_all
  then show ?thesis
  proof cases
    case 1
    then show ?thesis using d f unfolding x f_def [symmetric] by simp
  next
    case 2
    then have "0 < d" by simp
    from c [OF this] 2 d show ?thesis unfolding f_def [symmetric] by (simp add: x)
  qed
qed

lemma roundHalfEven_nearest: "\<bar>of_int (roundHalfEven s) - s\<bar> \<le> \<bar>of_int R - s\<bar>"
proof -
  define m where "m = roundHalfEven s"
  have b: "\<lfloor>s\<rfloor> \<le> m" "m \<le> \<lceil>s\<rceil>" "\<bar>of_int m - s\<bar> \<le> 1 / 2"
    using roundHalfEven_bounds [of s] unfolding m_def by simp_all
  have "\<bar>of_int m - s\<bar> \<le> \<bar>of_int R - s\<bar>"
  proof (cases "R = m")
    case True
    then show ?thesis by simp
  next
    case False
    consider "R \<le> \<lfloor>s\<rfloor>" | "\<lceil>s\<rceil> \<le> R" by linarith
    then show ?thesis
    proof cases
      case 1
      then have "(of_int R :: rat) \<le> of_int \<lfloor>s\<rfloor>" by (simp only: of_int_le_iff)
      then have Rs: "of_int R \<le> s" by linarith
      show ?thesis
      proof (cases "R = \<lfloor>s\<rfloor>")
        case True
        with False b have "m = \<lfloor>s\<rfloor> + 1" by linarith
        then have "of_int m - s = 1 - (s - of_int \<lfloor>s\<rfloor>)" by simp
        with b(3) have "1 / 2 \<le> s - of_int \<lfloor>s\<rfloor>" by linarith
        then show ?thesis using b(3) True by linarith
      next
        case False
        with 1 have "R \<le> \<lfloor>s\<rfloor> - 1" by simp
        then have "(of_int R :: rat) \<le> of_int (\<lfloor>s\<rfloor> - 1)" by (simp only: of_int_le_iff)
        then have "1 \<le> s - of_int R" by linarith
        then show ?thesis using b(3) by linarith
      qed
    next
      case 2
      then have "(of_int \<lceil>s\<rceil> :: rat) \<le> of_int R" by (simp only: of_int_le_iff)
      then have Rs: "s \<le> of_int R" by linarith
      show ?thesis
      proof (cases "R = \<lceil>s\<rceil>")
        case True
        with False b have m: "m < \<lceil>s\<rceil>" by linarith
        have "\<lceil>s\<rceil> \<le> \<lfloor>s\<rfloor> + 1" by (rule ceiling_le) linarith
        with m b(1) have "m = \<lfloor>s\<rfloor>" "\<lceil>s\<rceil> = \<lfloor>s\<rfloor> + 1" by linarith+
        then have "of_int \<lceil>s\<rceil> - s = 1 - (s - of_int m)" by simp
        moreover have "of_int m \<le> s" using \<open>m = \<lfloor>s\<rfloor>\<close> by simp
        ultimately show ?thesis using b(3) True Rs by linarith
      next
        case False
        with 2 have "\<lceil>s\<rceil> + 1 \<le> R" by simp
        then have "(of_int (\<lceil>s\<rceil> + 1) :: rat) \<le> of_int R" by (simp only: of_int_le_iff)
        then have "1 \<le> of_int R - s" by linarith
        then show ?thesis using b(3) by linarith
      qed
    qed
  qed
  then show ?thesis unfolding m_def .
qed

lemma double_unfold:
  "0 < x \<Longrightarrow>
   double x = of_int (roundHalfEven (x * power_int 2 (52 - exponent x))) * power_int 2 (exponent x - 52)"
  by (simp add: double_def Let_def)

lemma p2_add: "power_int (2::rat) a * power_int 2 b = power_int 2 (a + b)"
  by (simp add: power_int_add)

lemma scaled_bounds:
  assumes "0 < x"
  shows "2 ^ 52 \<le> x * power_int 2 (52 - exponent x) \<and> x * power_int 2 (52 - exponent x) < 2 ^ 53"
proof -
  define e where "e = exponent x"
  have p: "0 < power_int (2::rat) (52 - e)" by simp
  have b: "power_int 2 e \<le> x" "x < power_int 2 (e + 1)"
    using exponent_bounds [OF assms] unfolding e_def by simp_all
  have lo: "power_int (2::rat) e * power_int 2 (52 - e) = 2 ^ 52"
    using p2_add [of e "52 - e"] by simp
  have hi: "power_int (2::rat) (e + 1) * power_int 2 (52 - e) = 2 ^ 53"
    using p2_add [of "e + 1" "52 - e"] by simp
  from mult_right_mono [OF b(1), of "power_int 2 (52 - e)"] p lo
  have "2 ^ 52 \<le> x * power_int 2 (52 - e)" by simp
  moreover from mult_strict_right_mono [OF b(2) p] hi
  have "x * power_int 2 (52 - e) < 2 ^ 53" by simp
  ultimately show ?thesis unfolding e_def ..
qed

lemma unscale: "x * power_int 2 (52 - e) * power_int 2 (e - 52) = (x::rat)"
proof -
  have "power_int (2::rat) (52 - e) * power_int 2 (e - 52) = 1"
    using p2_add [of "52 - e" "e - 52"] by simp
  then show ?thesis by (simp add: mult.assoc)
qed

lemma representable_scaled:
  assumes "representable r" and "power_int 2 e \<le> r"
  shows "\<exists>R::int. r * power_int 2 (52 - e) = of_int R"
proof -
  from assms(1) obtain M E where M: "\<bar>M\<bar> < 2 ^ 53" and r: "r = of_int M * power_int 2 E"
    unfolding representable_def by blast
  have pe: "0 < power_int (2::rat) e" and pE: "0 < power_int (2::rat) E" by simp_all
  have rpos: "0 < r" using pe assms(2) by linarith
  have Mpos: "0 < M"
  proof (rule ccontr)
    assume "\<not> 0 < M"
    then have "(of_int M :: rat) \<le> 0" by simp
    then have "of_int M * power_int (2::rat) E \<le> 0" using pE by (simp add: mult_le_0_iff)
    with rpos r show False by simp
  qed
  have "M < 2 ^ 53" using M by simp
  then have "(of_int M :: rat) < of_int (2 ^ 53)" by (simp only: of_int_less_iff)
  then have "(of_int M :: rat) < 2 ^ 53" by simp
  then have "of_int M * power_int (2::rat) E < 2 ^ 53 * power_int 2 E"
    using pE by (rule mult_strict_right_mono)
  also have "(2::rat) ^ 53 * power_int 2 E = power_int 2 (53 + E)"
    using p2_add [of 53 E] by simp
  finally have "power_int (2::rat) e < power_int 2 (53 + E)" using assms(2) r by simp
  have lt: "e < 53 + E"
  proof (rule ccontr)
    assume "\<not> e < 53 + E"
    then have "53 + E \<le> e" by simp
    then have "power_int (2::rat) (53 + E) \<le> power_int 2 e" by (rule power_int_increasing) simp
    with \<open>power_int (2::rat) e < power_int 2 (53 + E)\<close> show False by simp
  qed
  define k where "k = nat (E + 52 - e)"
  have k: "E + (52 - e) = int k" using lt unfolding k_def by simp
  have "r * power_int 2 (52 - e) = of_int M * (power_int 2 E * power_int 2 (52 - e))"
    unfolding r by (simp add: mult.assoc)
  also have "power_int (2::rat) E * power_int 2 (52 - e) = power_int 2 (E + (52 - e))"
    by (rule p2_add)
  also have "\<dots> = 2 ^ k" unfolding k by simp
  also have "of_int M * (2::rat) ^ k = of_int (M * 2 ^ k)" by simp
  finally show ?thesis by blast
qed

lemma double_representable:
  assumes "0 < x"
  shows "representable (double x)"
proof -
  define e where "e = exponent x"
  define m where "m = roundHalfEven (x * power_int 2 (52 - e))"
  have d: "double x = of_int m * power_int 2 (e - 52)"
    unfolding double_unfold [OF assms] m_def e_def ..
  have "x * power_int 2 (52 - e) < of_int (2 ^ 53)"
    using scaled_bounds [OF assms] unfolding e_def by simp
  then have "\<lceil>x * power_int 2 (52 - e)\<rceil> \<le> 2 ^ 53" by (simp only: ceiling_le_iff less_imp_le)
  moreover have "m \<le> \<lceil>x * power_int 2 (52 - e)\<rceil>"
    using roundHalfEven_bounds [of "x * power_int 2 (52 - e)"] unfolding m_def by simp
  ultimately have hi: "m \<le> 2 ^ 53" by (rule order_trans [rotated])
  have "0 \<le> x * power_int 2 (52 - e)" using assms by simp
  then have "0 \<le> \<lfloor>x * power_int 2 (52 - e)\<rfloor>" by simp
  moreover have "\<lfloor>x * power_int 2 (52 - e)\<rfloor> \<le> m"
    using roundHalfEven_bounds [of "x * power_int 2 (52 - e)"] unfolding m_def by simp
  ultimately have lo: "0 \<le> m" by (rule order_trans)
  show ?thesis
  proof (cases "m = 2 ^ 53")
    case True
    have "double x = of_int 1 * power_int 2 (53 + (e - 52))"
      unfolding d True using p2_add [of 53 "e - 52"] by simp
    moreover have "\<bar>1::int\<bar> < 2 ^ 53" by simp
    ultimately show ?thesis unfolding representable_def by blast
  next
    case False
    with hi lo have "\<bar>m\<bar> < 2 ^ 53" by simp
    with d show ?thesis unfolding representable_def by blast
  qed
qed

lemma double_le:
  assumes "0 < x" and "x \<le> r" and "representable r"
  shows "double x \<le> r"
proof -
  define e where "e = exponent x"
  define s where "s = x * power_int 2 (52 - e)"
  have "power_int 2 e \<le> x" using exponent_bounds [OF assms(1)] unfolding e_def by simp
  with assms(2) have "power_int 2 e \<le> r" by simp
  from representable_scaled [OF assms(3) this] obtain R :: int
    where R: "r * power_int 2 (52 - e) = of_int R" by blast
  have "s \<le> r * power_int 2 (52 - e)"
    unfolding s_def using assms(2) by (intro mult_right_mono) simp_all
  then have "s \<le> of_int R" using R by simp
  then have "\<lceil>s\<rceil> \<le> R" by (simp add: ceiling_le_iff)
  moreover have "roundHalfEven s \<le> \<lceil>s\<rceil>" using roundHalfEven_bounds [of s] by simp
  ultimately have "roundHalfEven s \<le> R" by linarith
  then have "(of_int (roundHalfEven s) :: rat) \<le> of_int R" by (simp only: of_int_le_iff)
  then have "of_int (roundHalfEven s) * power_int 2 (e - 52) \<le> of_int R * power_int (2::rat) (e - 52)"
    by (intro mult_right_mono) simp_all
  also have "of_int R * power_int (2::rat) (e - 52) = r"
    unfolding R [symmetric] by (rule unscale)
  finally show ?thesis unfolding double_unfold [OF assms(1)] s_def e_def .
qed

lemma double_ge_binade:
  assumes "0 < x"
  shows "power_int 2 (exponent x) \<le> double x"
proof -
  define e where "e = exponent x"
  define s where "s = x * power_int 2 (52 - e)"
  have "2 ^ 52 \<le> s" using scaled_bounds [OF assms] unfolding s_def e_def by simp
  then have "(of_int (2 ^ 52) :: rat) \<le> s" by simp
  then have "2 ^ 52 \<le> \<lfloor>s\<rfloor>" by (simp only: le_floor_iff)
  moreover have "\<lfloor>s\<rfloor> \<le> roundHalfEven s" using roundHalfEven_bounds [of s] by simp
  ultimately have "2 ^ 52 \<le> roundHalfEven s" by (rule order_trans)
  then have "(of_int (2 ^ 52) :: rat) \<le> of_int (roundHalfEven s)" by (simp only: of_int_le_iff)
  then have "(2::rat) ^ 52 \<le> of_int (roundHalfEven s)" by simp
  then have a: "2 ^ 52 * power_int (2::rat) (e - 52) \<le> of_int (roundHalfEven s) * power_int 2 (e - 52)"
    by (intro mult_right_mono) simp_all
  have b: "2 ^ 52 * power_int (2::rat) (e - 52) = power_int 2 e"
    using p2_add [of 52 "e - 52"] by simp
  from a have "power_int (2::rat) e \<le> of_int (roundHalfEven s) * power_int 2 (e - 52)"
    unfolding b .
  then show ?thesis unfolding double_unfold [OF assms] s_def e_def .
qed

lemma double_pos: "0 < x \<Longrightarrow> 0 < double x"
  using double_ge_binade [of x] zero_less_power_int [of "2::rat" "exponent x"] by linarith

lemma double_ge:
  assumes "0 < x" and "r \<le> x" and "representable r"
  shows "r \<le> double x"
proof (cases "power_int 2 (exponent x) \<le> r")
  case False
  then show ?thesis using double_ge_binade [OF assms(1)] by simp
next
  case True
  define e where "e = exponent x"
  define s where "s = x * power_int 2 (52 - e)"
  from representable_scaled [OF assms(3) True] obtain R :: int
    where R: "r * power_int 2 (52 - e) = of_int R" unfolding e_def by blast
  have "r * power_int 2 (52 - e) \<le> s"
    unfolding s_def using assms(2) by (intro mult_right_mono) simp_all
  then have "of_int R \<le> s" using R by simp
  then have "R \<le> \<lfloor>s\<rfloor>" by (simp add: le_floor_iff)
  moreover have "\<lfloor>s\<rfloor> \<le> roundHalfEven s" using roundHalfEven_bounds [of s] by simp
  ultimately have "R \<le> roundHalfEven s" by (rule order_trans)
  then have "(of_int R :: rat) \<le> of_int (roundHalfEven s)" by (simp only: of_int_le_iff)
  then have a: "of_int R * power_int (2::rat) (e - 52) \<le> of_int (roundHalfEven s) * power_int 2 (e - 52)"
    by (intro mult_right_mono) simp_all
  have b: "of_int R * power_int (2::rat) (e - 52) = r"
    unfolding R [symmetric] by (rule unscale)
  from a have "r \<le> of_int (roundHalfEven s) * power_int 2 (e - 52)"
    unfolding b .
  then show ?thesis unfolding double_unfold [OF assms(1)] s_def e_def .
qed

lemma double_exact: "0 < r \<Longrightarrow> representable r \<Longrightarrow> double r = r"
  using double_le [of r r] double_ge [of r r] by simp

lemma double_error:
  assumes "0 < x"
  shows "\<bar>double x - x\<bar> \<le> x / 2 ^ 53"
proof -
  define e where "e = exponent x"
  define s where "s = x * power_int 2 (52 - e)"
  define m where "m = roundHalfEven s"
  have d: "double x = of_int m * power_int 2 (e - 52)"
    unfolding double_unfold [OF assms] m_def s_def e_def ..
  have x: "x = s * power_int 2 (e - 52)" unfolding s_def by (simp add: unscale)
  have "double x - x = (of_int m - s) * power_int 2 (e - 52)"
    unfolding d by (subst x) (simp add: algebra_simps)
  then have "\<bar>double x - x\<bar> = \<bar>of_int m - s\<bar> * power_int 2 (e - 52)"
    by (simp add: abs_mult)
  also have "\<dots> \<le> 1 / 2 * power_int 2 (e - 52)"
    using roundHalfEven_bounds [of s] unfolding m_def by (intro mult_right_mono) simp_all
  also have "\<dots> \<le> s / 2 ^ 53 * power_int 2 (e - 52)"
    using scaled_bounds [OF assms] unfolding s_def e_def by (intro mult_right_mono) simp_all
  also have "\<dots> = x / 2 ^ 53" by (subst x) simp
  finally show ?thesis .
qed

lemma double_nearest:
  assumes "0 < x" and "representable r"
  shows "\<bar>double x - x\<bar> \<le> \<bar>r - x\<bar>"
proof -
  define e where "e = exponent x"
  define s where "s = x * power_int 2 (52 - e)"
  define m where "m = roundHalfEven s"
  define p :: rat where "p = power_int 2 (e - 52)"
  have ppos: "0 < p" unfolding p_def by simp
  have d: "double x = of_int m * p"
    unfolding double_unfold [OF assms(1)] m_def s_def e_def p_def ..
  have x: "x = s * p" unfolding s_def p_def by (simp add: unscale)
  have dx: "\<bar>double x - x\<bar> = \<bar>of_int m - s\<bar> * p"
  proof -
    have "double x - x = (of_int m - s) * p" unfolding d by (subst x) (simp add: algebra_simps)
    then show ?thesis using ppos by (simp add: abs_mult)
  qed
  have e: "power_int 2 e \<le> x" using exponent_bounds [OF assms(1)] unfolding e_def by simp
  have pe: "power_int 2 e = 2 ^ 52 * p" unfolding p_def using p2_add [of 52 "e - 52"] by simp
  show ?thesis
  proof (cases "power_int 2 e \<le> r")
    case True
    from representable_scaled [OF assms(2) True] obtain R :: int
      where R: "r * power_int 2 (52 - e) = of_int R" by blast
    have r: "r = of_int R * p" unfolding R [symmetric] p_def by (simp add: unscale)
    have "r - x = (of_int R - s) * p" unfolding r by (subst x) (simp add: algebra_simps)
    then have "\<bar>r - x\<bar> = \<bar>of_int R - s\<bar> * p" using ppos by (simp add: abs_mult)
    moreover have "\<bar>of_int m - s\<bar> * p \<le> \<bar>of_int R - s\<bar> * p"
      unfolding m_def using ppos roundHalfEven_nearest [of s R] by (intro mult_right_mono) simp_all
    ultimately show ?thesis unfolding dx by simp
  next
    case False
    then have rlt: "r < 2 ^ 52 * p" unfolding pe by simp
    have s52: "2 ^ 52 \<le> s" using scaled_bounds [OF assms(1)] unfolding s_def e_def by simp
    then have "(of_int (2 ^ 52) :: rat) \<le> s" by simp
    then have f52: "2 ^ 52 \<le> \<lfloor>s\<rfloor>" by (simp only: le_floor_iff)
    have "\<bar>of_int m - s\<bar> \<le> \<bar>of_int (2 ^ 52) - s\<bar>" unfolding m_def by (rule roundHalfEven_nearest)
    then have "\<bar>of_int m - s\<bar> \<le> s - 2 ^ 52" using s52 by simp
    then have "\<bar>of_int m - s\<bar> * p \<le> (s - 2 ^ 52) * p" using ppos by (intro mult_right_mono) simp_all
    also have "\<dots> = x - 2 ^ 52 * p" by (subst x) (simp add: algebra_simps)
    also have "\<dots> \<le> \<bar>r - x\<bar>" using rlt by linarith
    finally show ?thesis unfolding dx .
  qed
qed

lemma representable_of_nat: "n < 2 ^ 53 \<Longrightarrow> representable (of_nat n)"
  unfolding representable_def
  by (rule exI [of _ "int n"], rule exI [of _ 0]) simp


lemma representable_of_int: "\<bar>k\<bar> < 2 ^ 53 \<Longrightarrow> representable (of_int k)"
  unfolding representable_def
  by (rule exI [of _ k], rule exI [of _ 0]) simp

lemma double_zero: "double 0 = 0"
  by (simp add: double_def)

text \<open>The same for \<open>x \<ge> 0\<close>, and \<open>double\<close> is monotone.\<close>

lemma double_nonneg: "0 \<le> x \<Longrightarrow> 0 \<le> double x"
  using double_pos [of x] by (cases "x = 0") (simp_all add: double_zero less_imp_le)

lemma double_le_nonneg:
  assumes "0 \<le> x" and "x \<le> r" and "representable r"
  shows "double x \<le> r"
proof (cases "x = 0")
  case True
  then show ?thesis using assms(2) by (simp add: double_zero)
next
  case False
  with assms(1) have "0 < x" by simp
  then show ?thesis using assms(2,3) by (rule double_le)
qed

lemma double_ge_nonneg:
  assumes "0 \<le> x" and "r \<le> x" and "representable r"
  shows "r \<le> double x"
proof (cases "x = 0")
  case True
  then show ?thesis using assms(2) by (simp add: double_zero)
next
  case False
  with assms(1) have "0 < x" by simp
  then show ?thesis using assms(2,3) by (rule double_ge)
qed

lemma double_mono:
  assumes "0 \<le> x" and "x \<le> y"
  shows "double x \<le> double y"
proof (cases "x = 0")
  case True
  then show ?thesis using assms double_nonneg [of y] by (simp add: double_zero)
next
  case False
  with assms have x: "0 < x" and y: "0 < y" by simp_all
  note ry = double_representable [OF y] and rx = double_representable [OF x]
  show ?thesis
  proof (cases "x \<le> double y")
    case True
    with x show ?thesis using ry by (rule double_le)
  next
    case False
    then have lt: "double y < x" by simp
    show ?thesis
    proof (rule ccontr)
      assume "\<not> double x \<le> double y"
      then have gt: "double y < double x" by simp
      have "\<not> double x \<le> y"
      proof
        assume "double x \<le> y"
        with y have "double x \<le> double y" using rx by (rule double_ge)
        with gt show False by simp
      qed
      then have xy: "y < double x" by simp
      have "\<bar>double x - x\<bar> \<le> \<bar>double y - x\<bar>" using x ry by (rule double_nearest)
      moreover have "\<bar>double y - y\<bar> \<le> \<bar>double x - y\<bar>" using y rx by (rule double_nearest)
      ultimately have "y \<le> x" using lt xy assms(2) by linarith
      with assms(2) have "x = y" by simp
      with gt show False by simp
    qed
  qed
qed

lemma double_exact_nonneg: "0 \<le> r \<Longrightarrow> representable r \<Longrightarrow> double r = r"
  using double_exact [of r] by (cases "r = 0") (simp_all add: double_zero)

lemma representable_scaled_int: "\<bar>m\<bar> < 2 ^ 53 \<Longrightarrow> representable (of_int m * power_int 2 e)"
  unfolding representable_def by blast

subsection \<open>Evaluation of numbers\<close>

lemma floor_numeral_div: "\<lfloor>(numeral a :: rat) / numeral b\<rfloor> = numeral a div numeral b"
  using floor_divide_of_int_eq [of "numeral a" "numeral b", where ?'a = rat] by simp

lemma ceiling_numeral_div:
  "\<lceil>(numeral a :: rat) / numeral b\<rceil> = - ((- numeral a) div numeral b)"
  unfolding ceiling_def using floor_divide_of_int_eq [of "- numeral a" "numeral b", where ?'a = rat]
  by simp

lemma floor_one_div: "\<lfloor>(1 :: rat) / numeral b\<rfloor> = 1 div numeral b"
  using floor_divide_of_int_eq [of 1 "numeral b", where ?'a = rat] by simp

lemma ceiling_one_div: "\<lceil>(1 :: rat) / numeral b\<rceil> = - ((- 1) div numeral b)"
  unfolding ceiling_def using floor_divide_of_int_eq [of "- 1" "numeral b", where ?'a = rat]
  by simp

lemma bitLength_numeral:
  "bitLength 0 = 0"
  "bitLength (Suc 0) = 1"
  "bitLength (numeral n) = Suc (bitLength (numeral n div 2))"
  by (simp_all add: bitLength.simps)

lemmas eval_double = double_def exponent_def roundHalfEven_def Let_def floor_numeral_div
  ceiling_numeral_div floor_one_div ceiling_one_div bitLength_numeral

text \<open>Ties go to the even mantissa, and the sign is kept.\<close>

lemma double_ties_to_even:
  "double (2 ^ 53 + 1) = 2 ^ 53" "double (2 ^ 53 + 3) = 2 ^ 53 + 4"
  "double (1 / 10) = 3602879701896397 / 2 ^ 55" "double (- (1 / 10)) = - (3602879701896397 / 2 ^ 55)"
  by (simp_all add: eval_double)

lemmas eval_formatTime = formatTime_def mathRound_def jsRem_def showInt_def showNat.simps js_def
  eval_double

subsection \<open>formatTime\<close>

lemma jsRem_nonneg: "0 \<le> a \<Longrightarrow> 0 < b \<Longrightarrow> jsRem a b = a mod b"
  by (simp add: jsRem_def sgn_if)

lemma jsRem_neg: "a < 0 \<Longrightarrow> 0 < b \<Longrightarrow> jsRem a b = - ((- a) mod b)"
  by (simp add: jsRem_def sgn_if)

lemma floor_div_60: "\<lfloor>(of_int t :: rat) / 60\<rfloor> = t div 60"
  using floor_divide_of_int_eq [of t 60, where ?'a = rat] by simp

text \<open>
  The number of seconds of a count below \<open>2^32\<close> is at most 60 times the count, and
  for such a number of seconds the rounded quotient \<open>seconds / 60\<close> has the floor of the
  exact one.
\<close>

lemma totalSeconds_bounds:
  assumes "0 < n" and "n < 2 ^ 32" and "0 < wpm"
  shows "0 \<le> mathRound (double (double (of_nat n / of_nat wpm) * 60)) \<and>
         mathRound (double (double (of_nat n / of_nat wpm) * 60)) \<le> 60 * int n"
proof -
  define q :: rat where "q = of_nat n / of_nat wpm"
  define d1 where "d1 = double q"
  define d2 where "d2 = double (d1 * 60)"
  have qpos: "0 < q" unfolding q_def using assms by simp
  have "1 \<le> (of_nat wpm :: rat)" using assms(3) by simp
  then have qle: "q \<le> of_nat n" unfolding q_def
    by (simp add: divide_le_eq mult_le_cancel_left1)
  have n53: "n < 2 ^ 53" using assms(2) by (rule less_trans) simp
  have d1pos: "0 < d1" unfolding d1_def using qpos by (rule double_pos)
  have d1le: "d1 \<le> of_nat n"
    unfolding d1_def using qpos qle representable_of_nat [OF n53] by (rule double_le)
  have ppos: "0 < d1 * 60" using d1pos by simp
  have ple: "d1 * 60 \<le> of_nat (60 * n)" using d1le by simp
  have "60 * n < 2 ^ 53" using assms(2) by simp
  then have rep: "representable (of_nat (60 * n))" by (rule representable_of_nat)
  have d2pos: "0 < d2" unfolding d2_def using ppos by (rule double_pos)
  have d2le: "d2 \<le> of_nat (60 * n)" unfolding d2_def using ppos ple rep by (rule double_le)
  have lo: "0 \<le> \<lfloor>d2 + 1 / 2\<rfloor>" using d2pos by simp
  have "d2 + 1 / 2 < of_int (60 * int n + 1)" using d2le by simp
  then have "\<lfloor>d2 + 1 / 2\<rfloor> < 60 * int n + 1" by (simp only: floor_less_iff)
  then have hi: "\<lfloor>d2 + 1 / 2\<rfloor> \<le> 60 * int n" by simp
  from lo hi show ?thesis unfolding mathRound_def d2_def d1_def q_def by simp
qed

lemma floor_double_div60:
  assumes "0 \<le> t" and "t < 60 * 2 ^ 47"
  shows "\<lfloor>double (of_int t / 60)\<rfloor> = t div 60"
proof (cases "t = 0")
  case True
  then show ?thesis by (simp add: double_zero)
next
  case False
  define k where "k = t div 60"
  define x :: rat where "x = of_int t / 60"
  have tpos: "0 < t" using assms(1) False by simp
  have xpos: "0 < x" unfolding x_def using tpos by simp
  have k0: "0 \<le> k" unfolding k_def using assms(1) by simp
  have k47: "k < 2 ^ 47" unfolding k_def using assms(2) by simp
  have t1: "60 * k \<le> t" and t2: "t \<le> 60 * k + 59" unfolding k_def by presburger+
  have lo: "of_int k \<le> double x"
  proof (cases "k = 0")
    case True
    then show ?thesis using double_pos [OF xpos] by simp
  next
    case False
    have "(of_int (60 * k) :: rat) \<le> of_int t" using t1 by (simp only: of_int_le_iff)
    then have "of_int k \<le> x" unfolding x_def by simp
    moreover have "representable (of_int k)" using k0 k47 by (intro representable_of_int) simp
    ultimately show ?thesis using xpos by (intro double_ge) simp_all
  qed
  define r :: rat where "r = of_int (64 * k + 63) * power_int 2 (- 6)"
  have r: "r = of_int k + 63 / 64" unfolding r_def by (simp add: power_int_minus field_simps)
  have "\<bar>64 * k + 63\<bar> < 2 ^ 53" using k0 k47 by simp
  then have rep: "representable r" unfolding r_def representable_def by blast
  have "(of_int t :: rat) \<le> of_int (60 * k + 59)" using t2 by (simp only: of_int_le_iff)
  then have "x \<le> of_int k + 59 / 60" unfolding x_def by simp
  then have "x \<le> r" unfolding r by simp
  with xpos have "double x \<le> r" using rep by (intro double_le) simp_all
  then have hi: "double x < of_int k + 1" unfolding r by simp
  from lo hi have "\<lfloor>double x\<rfloor> = k" by (intro floor_unique) simp_all
  then show ?thesis unfolding x_def k_def .
qed


text \<open>
  When the rate is twice an odd number, as 238 and 158 are, \<open>60 * words / wpm\<close> is
  never within \<open>1 / wpm\<close> of the middle between two integers, and the two roundings
  of the quotient and of the product are off by less.
\<close>

lemma double_product_error:
  assumes "0 < q"
  shows "\<bar>double (double q * 60) - q * 60\<bar> \<le> q * 180 / 2 ^ 53"
proof -
  define d1 where "d1 = double q"
  define d2 where "d2 = double (d1 * 60)"
  define v :: rat where "v = 1 / 2 ^ 53"
  define qv where "qv = q * v"
  have v: "0 \<le> v" "v \<le> 1" unfolding v_def by simp_all
  have d1pos: "0 < d1" unfolding d1_def using assms by (rule double_pos)
  have e1: "\<bar>d1 - q\<bar> \<le> qv"
    using double_error [OF assms] unfolding d1_def qv_def v_def by simp
  have "0 < d1 * 60" using d1pos by simp
  from double_error [OF this] have e2: "\<bar>d2 - d1 * 60\<bar> \<le> 60 * (d1 * v)"
    unfolding d2_def v_def by simp
  have "q * v \<le> q * 1" using assms v by (intro mult_left_mono) simp_all
  then have "qv \<le> q" unfolding qv_def by simp
  with e1 have "d1 \<le> 2 * q" by linarith
  then have "d1 * v \<le> 2 * q * v" using v(1) by (rule mult_right_mono)
  then have "d1 * v \<le> 2 * qv" unfolding qv_def by simp
  with e1 e2 have "\<bar>d2 - q * 60\<bar> \<le> 180 * qv" by linarith
  then show ?thesis unfolding d2_def d1_def qv_def v_def by simp
qed

lemma mathRound_near:
  assumes "of_int k + d \<le> x + 1 / 2" and "x + 1 / 2 \<le> of_int k + 1 - d" and "\<bar>y - x\<bar> < d"
  shows "mathRound y = k \<and> mathRound x = k"
proof -
  have "0 < d" using assms(3) by linarith
  have "of_int k \<le> y + 1 / 2" "y + 1 / 2 < of_int k + 1" using assms by linarith+
  then have y: "\<lfloor>y + 1 / 2\<rfloor> = k" by (intro floor_unique)
  have "of_int k \<le> x + 1 / 2" "x + 1 / 2 < of_int k + 1" using assms \<open>0 < d\<close> by linarith+
  then have x: "\<lfloor>x + 1 / 2\<rfloor> = k" by (intro floor_unique)
  from x y show ?thesis unfolding mathRound_def by simp
qed

lemma totalSeconds_exact:
  assumes "n < 2 ^ 32" and "odd u"
  shows "mathRound (double (double (of_nat n / of_nat (2 * u)) * 60)) =
         mathRound (of_nat n / of_nat (2 * u) * 60)"
proof (cases "n = 0")
  case True
  then show ?thesis by (simp add: double_zero)
next
  case False
  define q :: rat where "q = of_nat n / of_nat (2 * u)"
  define N where "N = 60 * int n + int u"
  define k where "k = N div (2 * int u)"
  define r where "r = N mod (2 * int u)"
  have upos: "0 < u" using assms(2) by (cases u) simp_all
  have U: "0 < (of_nat u :: rat)" using upos by simp
  have qpos: "0 < q" unfolding q_def using False upos by simp
  have N: "N = 2 * int u * k + r" unfolding k_def r_def by simp
  have "odd N" unfolding N_def using assms(2) by simp
  then have "odd r" unfolding N by simp
  then have "r \<noteq> 0" by (rule contrapos_nn) simp
  moreover have "0 \<le> r" "r < 2 * int u" unfolding r_def using upos by simp_all
  ultimately have r: "1 \<le> r" "r \<le> 2 * int u - 1" by simp_all
  have x: "q * 60 + 1 / 2 = of_int N / (2 * of_nat u)"
    unfolding q_def N_def using upos by (simp add: field_simps)
  have Nk: "(of_int N :: rat) = 2 * of_nat u * of_int k + of_int r"
    unfolding N by simp
  have lo: "of_int k + 1 / (2 * of_nat u) \<le> q * 60 + 1 / 2"
  proof -
    have "(1 :: rat) \<le> of_int r" using r(1) by simp
    then have "2 * of_nat u * of_int k + 1 \<le> (of_int N :: rat)" unfolding Nk by simp
    then have "(2 * of_nat u * of_int k + 1) / (2 * of_nat u) \<le> (of_int N :: rat) / (2 * of_nat u)"
      using U by (intro divide_right_mono) simp_all
    then show ?thesis unfolding x using U by (simp add: field_simps)
  qed
  have hi: "q * 60 + 1 / 2 \<le> of_int k + 1 - 1 / (2 * of_nat u)"
  proof -
    have "(of_int r :: rat) \<le> of_int (2 * int u - 1)" using r(2) by (simp only: of_int_le_iff)
    then have "(of_int N :: rat) \<le> 2 * of_nat u * of_int k + 2 * of_nat u - 1" unfolding Nk by simp
    then have "(of_int N :: rat) / (2 * of_nat u) \<le> (2 * of_nat u * of_int k + 2 * of_nat u - 1) / (2 * of_nat u)"
      using U by (intro divide_right_mono) simp_all
    then show ?thesis unfolding x using U by (simp add: field_simps)
  qed
  have "(of_nat n :: rat) < of_nat (2 ^ 32)" using assms(1) by (simp only: of_nat_less_iff)
  then have n32: "(of_nat n :: rat) < 2 ^ 32" by simp
  have "q * 180 / 2 ^ 53 = of_nat n * 90 / (of_nat u * 2 ^ 53)"
    unfolding q_def by simp
  also have "\<dots> < 2 ^ 32 * 90 / (of_nat u * 2 ^ 53)"
    using n32 U by (intro divide_strict_right_mono mult_strict_right_mono) simp_all
  also have "\<dots> \<le> 1 / (2 * of_nat u)"
    using U by (simp add: field_simps)
  finally have small: "q * 180 / 2 ^ 53 < 1 / (2 * of_nat u)" .
  have "\<bar>double (double q * 60) - q * 60\<bar> < 1 / (2 * of_nat u)"
    using double_product_error [OF qpos] small by (rule le_less_trans)
  from mathRound_near [OF lo hi this] show ?thesis unfolding q_def by simp
qed


text \<open>
  Claim C8. \<open>formatTime 0 wpm\<close> is \<open>"0 min"\<close>. For a positive word count below
  \<open>2^32\<close> (the count is the length of an array) and a rate \<open>wpm > 0\<close>, with
  \<open>totalSeconds\<close> the rounded product \<open>words / wpm * 60\<close> (the quotient and the
  product as the program computes them, each the nearest double), \<open>minutes\<close> the floor
  of \<open>totalSeconds / 60\<close> and \<open>seconds\<close> the remainder, the result is
  \<open>"{seconds} sec"\<close> when \<open>minutes\<close> is 0, \<open>"{minutes} min"\<close> when \<open>seconds\<close> is 0,
  and \<open>"{minutes} min {seconds} sec"\<close> otherwise. At the two rates of the program,
  238 and 158, \<open>totalSeconds\<close> is the same as with the exact quotient and product. In
  particular \<open>formatTime(0, 238)\<close> is \<open>"0 min"\<close>, \<open>formatTime(238, 238)\<close> is
  \<open>"1 min"\<close> and \<open>formatTime(119, 238)\<close> is \<open>"30 sec"\<close>.
\<close>

theorem formatTime_cases:
  "formatTime 0 wpm = js ''0 min'' \<and>
   (0 < n \<and> n < 2 ^ 32 \<and> 0 < wpm \<and> wpm < 2 ^ 53 \<longrightarrow>
      (let totalSeconds = mathRound (double (double (of_nat n / of_nat wpm) * 60));
           minutes = \<lfloor>(of_int totalSeconds :: rat) / 60\<rfloor>;
           seconds = totalSeconds mod 60
       in formatTime n wpm =
            (if minutes = 0 then showInt seconds @ js '' sec''
             else if seconds = 0 then showInt minutes @ js '' min''
             else showInt minutes @ js '' min '' @ showInt seconds @ js '' sec''))) \<and>
   (n < 2 ^ 32 \<longrightarrow>
      mathRound (double (double (of_nat n / of_nat READING_WPM) * 60)) =
        mathRound (of_nat n / of_nat READING_WPM * 60) \<and>
      mathRound (double (double (of_nat n / of_nat SPEAKING_WPM) * 60)) =
        mathRound (of_nat n / of_nat SPEAKING_WPM * 60)) \<and>
   formatTime 0 238 = js ''0 min'' \<and>
   formatTime 238 238 = js ''1 min'' \<and>
   formatTime 119 238 = js ''30 sec''"
proof -
  have a: "formatTime 0 wpm = js ''0 min''" by (simp add: formatTime_def)
  have b: "0 < n \<and> n < 2 ^ 32 \<and> 0 < wpm \<and> wpm < 2 ^ 53 \<longrightarrow>
      (let totalSeconds = mathRound (double (double (of_nat n / of_nat wpm) * 60));
           minutes = \<lfloor>(of_int totalSeconds :: rat) / 60\<rfloor>;
           seconds = totalSeconds mod 60
       in formatTime n wpm =
            (if minutes = 0 then showInt seconds @ js '' sec''
             else if seconds = 0 then showInt minutes @ js '' min''
             else showInt minutes @ js '' min '' @ showInt seconds @ js '' sec''))"
  proof
    assume h: "0 < n \<and> n < 2 ^ 32 \<and> 0 < wpm \<and> wpm < 2 ^ 53"
    define t where "t = mathRound (double (double (of_nat n / of_nat wpm) * 60))"
    have t: "0 \<le> t" "t \<le> 60 * int n"
      using totalSeconds_bounds [of n wpm] h unfolding t_def by simp_all
    have "int n < 2 ^ 32" using h by simp
    then have "60 * int n < 60 * 2 ^ 47" by simp
    with t(2) have "t < 60 * 2 ^ 47" by (rule le_less_trans)
    with t(1) have m: "\<lfloor>double (of_int t / 60)\<rfloor> = t div 60" by (rule floor_double_div60)
    have s: "jsRem t 60 = t mod 60" using t(1) by (simp add: jsRem_nonneg)
    have "formatTime n wpm =
            (if t div 60 = 0 then showInt (t mod 60) @ js '' sec''
             else if t mod 60 = 0 then showInt (t div 60) @ js '' min''
             else showInt (t div 60) @ js '' min '' @ showInt (t mod 60) @ js '' sec'')"
      using h unfolding formatTime_def Let_def t_def [symmetric] m s by simp
    then show "let totalSeconds = mathRound (double (double (of_nat n / of_nat wpm) * 60));
           minutes = \<lfloor>(of_int totalSeconds :: rat) / 60\<rfloor>;
           seconds = totalSeconds mod 60
       in formatTime n wpm =
            (if minutes = 0 then showInt seconds @ js '' sec''
             else if seconds = 0 then showInt minutes @ js '' min''
             else showInt minutes @ js '' min '' @ showInt seconds @ js '' sec'')"
      unfolding Let_def t_def [symmetric] floor_div_60 .
  qed
  have c: "n < 2 ^ 32 \<longrightarrow>
      mathRound (double (double (of_nat n / of_nat READING_WPM) * 60)) =
        mathRound (of_nat n / of_nat READING_WPM * 60) \<and>
      mathRound (double (double (of_nat n / of_nat SPEAKING_WPM) * 60)) =
        mathRound (of_nat n / of_nat SPEAKING_WPM * 60)"
  proof
    assume h: "n < 2 ^ 32"
    have r: "READING_WPM = 2 * 119" and s: "SPEAKING_WPM = 2 * 79"
      by (simp_all add: READING_WPM_def SPEAKING_WPM_def)
    have "odd (119::nat)" "odd (79::nat)" by simp_all
    then show "mathRound (double (double (of_nat n / of_nat READING_WPM) * 60)) =
        mathRound (of_nat n / of_nat READING_WPM * 60) \<and>
      mathRound (double (double (of_nat n / of_nat SPEAKING_WPM) * 60)) =
        mathRound (of_nat n / of_nat SPEAKING_WPM * 60)"
      unfolding r s using totalSeconds_exact [OF h] by blast
  qed
  have d: "formatTime 0 238 = js ''0 min''" by (simp add: formatTime_def)
  have e: "formatTime 238 238 = js ''1 min''" by (simp add: eval_formatTime)
  have f: "formatTime 119 238 = js ''30 sec''" by (simp add: eval_formatTime)
  from a b c d e f show ?thesis by blast
qed

text \<open>
  At 41 words and 40 words per minute the quotient is the double next above \<open>1.025\<close>
  and the product the double next below \<open>61.5\<close>, so \<open>totalSeconds\<close> is 61.
\<close>

theorem formatTime_cases_witness:
  "(0::nat) < 41 \<and> (41::nat) < 2 ^ 32 \<and> (0::nat) < 40 \<and> (40::nat) < 2 ^ 53 \<and>
   mathRound (double (double (of_nat 41 / of_nat 40) * 60)) = 61 \<and>
   formatTime 41 40 = js ''1 min 1 sec'' \<and>
   mathRound (double (double (of_nat 41 / of_nat READING_WPM) * 60)) = 10 \<and>
   mathRound (of_nat 41 / of_nat READING_WPM * 60) = 10"
proof -
  have h: "(0::nat) < 41 \<and> (41::nat) < 2 ^ 32 \<and> (0::nat) < 40 \<and> (40::nat) < 2 ^ 53" by simp
  have r: "mathRound (double (double (of_nat 41 / of_nat 40) * 60)) = 61"
    by (simp add: mathRound_def eval_double)
  have x: "mathRound (of_nat 41 / of_nat READING_WPM * 60) = 10"
    by (simp add: mathRound_def READING_WPM_def floor_numeral_div)
  from formatTime_cases [of 40 41] h r x show ?thesis
    by (simp add: Let_def floor_div_60 showInt_def showNat.simps js_def)
qed

subsection \<open>countSyllables\<close>

lemma runsAcc_Suc_Suc: "runsAcc (Suc (Suc k)) s = Suc (runsAcc k s)"
  by (induction s arbitrary: k) auto

lemma length_matchVowels: "length (matchVowels s) = vowelGroups s"
  unfolding vowelGroups_def
  by (induction s rule: matchVowels.induct) (simp_all add: runsAcc_Suc_Suc)

lemma stripped_nonempty:
  assumes "w \<noteq> []" and "\<forall>c\<in>set w. isAsciiLetter c"
  shows "stripped w \<noteq> []"
proof -
  obtain c s where w: "w = c # s" using assms(1) by (cases w) auto
  with assms(2) have "isAsciiLetter c" by simp
  then have "filter isLower (lowerUnit c) \<noteq> []"
    by (auto simp: isAsciiLetter_def lowerUnit_def isLower_def)
  then show ?thesis by (simp add: w stripped_def toLowerCase_def)
qed

lemma countSyllables_ge1: "stripped w \<noteq> [] \<Longrightarrow> 1 \<le> countSyllables w"
  by (simp add: countSyllables_def Let_def)

text \<open>
  Claim C6. \<open>countSyllables\<close> lower-cases its argument and strips what is not a letter;
  it returns 0 when nothing is left and 1 when at most three letters are left; otherwise
  it counts the runs of one or two vowels, takes 1 off for a final \<open>e\<close>, adds 1 back for
  a final \<open>le\<close>, and returns at least 1. So \<open>countSyllables("the")\<close> is 1,
  \<open>countSyllables("")\<close> is 0, \<open>countSyllables("beautiful")\<close> is at least 2, and the
  result is at least 1 for every non-empty input made of letters.
\<close>

theorem countSyllables_refines:
  "countSyllables w = countSyllables_spec w \<and>
   countSyllables (js ''the'') = 1 \<and>
   countSyllables (js '''') = 0 \<and>
   2 \<le> countSyllables (js ''beautiful'') \<and>
   (w \<noteq> [] \<and> (\<forall>c\<in>set w. isAsciiLetter c) \<longrightarrow> 1 \<le> countSyllables w)"
proof -
  have a: "countSyllables w = countSyllables_spec w"
    by (simp add: countSyllables_def countSyllables_spec_def stripped_def Let_def
        length_matchVowels)
  have b: "countSyllables (js ''the'') = 1" by (simp add: eval_sentence)
  have c: "countSyllables (js '''') = 0" by (simp add: eval_sentence)
  have d: "2 \<le> countSyllables (js ''beautiful'')" by (simp add: eval_sentence)
  have e: "w \<noteq> [] \<and> (\<forall>c\<in>set w. isAsciiLetter c) \<longrightarrow> 1 \<le> countSyllables w"
    using stripped_nonempty countSyllables_ge1 by blast
  from a b c d e show ?thesis by blast
qed

theorem countSyllables_refines_witness:
  "js ''apple'' \<noteq> [] \<and> list_all isAsciiLetter (js ''apple'') \<and>
   countSyllables_spec (js ''apple'') = 2 \<and> 1 \<le> countSyllables (js ''apple'')"
proof -
  have h1: "js ''apple'' \<noteq> []" by (simp add: js_def)
  have h2: "list_all isAsciiLetter (js ''apple'')" by (simp add: js_def isAsciiLetter_def)
  then have h3: "\<forall>c\<in>set (js ''apple''). isAsciiLetter c" by (simp add: list_all_iff)
  have v: "countSyllables (js ''apple'') = 2" by (simp add: eval_sentence)
  from countSyllables_refines [of "js ''apple''"] h1 h3
  have "countSyllables_spec (js ''apple'') = countSyllables (js ''apple'')"
    and "1 \<le> countSyllables (js ''apple'')"
    by simp_all
  with h1 h2 v show ?thesis by simp
qed

subsection \<open>ordinal\<close>

lemma arrayGet_suffixes:
  "arrayGet suffixes i =
     (if i = 0 then Some (js ''th'') else if i = 1 then Some (js ''st'')
      else if i = 2 then Some (js ''nd'') else if i = 3 then Some (js ''rd'') else None)"
proof -
  have "0 \<le> i \<and> i < 4 \<Longrightarrow> i = 0 \<or> i = 1 \<or> i = 2 \<or> i = 3" by arith
  then show ?thesis
    by (auto simp: arrayGet_def suffixes_def)
qed

lemma suffix_nonempty:
  "js ''th'' \<noteq> []" "js ''st'' \<noteq> []" "js ''nd'' \<noteq> []" "js ''rd'' \<noteq> []"
  by (simp_all add: js_def)

lemma suffix_choice:
  fixes v :: int
  assumes "0 \<le> v" "v < 100"
  shows "renderOpt (orElse (orElse (arrayGet suffixes (jsRem (v - 20) 10)) (arrayGet suffixes v))
                        (arrayGet suffixes 0)) =
     (if 10 < v \<and> v < 20 then js ''th''
      else if v mod 10 = 1 then js ''st''
      else if v mod 10 = 2 then js ''nd''
      else if v mod 10 = 3 then js ''rd''
      else js ''th'')"
proof (cases "v < 20")
  case True
  then have r: "jsRem (v - 20) 10 = - ((20 - v) mod 10)"
    using jsRem_neg [of "v - 20" 10] by simp
  have nonpos: "- ((20 - v) mod 10) \<le> 0" by simp
  have z: "(20 - v) mod 10 = 0 \<longleftrightarrow> v mod 10 = 0" by presburger
  show ?thesis
  proof (cases "v mod 10 = 0")
    case True
    with z have "jsRem (v - 20) 10 = 0" using r by simp
    then show ?thesis using True \<open>v < 20\<close> assms
      by (simp add: arrayGet_suffixes orElse_def renderOpt_def suffix_nonempty)
  next
    case False
    with z r have neg: "jsRem (v - 20) 10 < 0"
      using nonpos by linarith
    then have none: "arrayGet suffixes (jsRem (v - 20) 10) = None"
      by (simp add: arrayGet_def)
    have small: "v < 10 \<Longrightarrow> v mod 10 = v" using assms by simp
    show ?thesis
    proof (cases "v < 10")
      case True
      then show ?thesis using none small assms False
        by (auto simp: arrayGet_suffixes orElse_def renderOpt_def suffix_nonempty)
    next
      case False
      then have "10 < v" using \<open>v mod 10 \<noteq> 0\<close> by presburger
      then show ?thesis using none \<open>v < 20\<close>
        by (auto simp: arrayGet_suffixes orElse_def renderOpt_def suffix_nonempty)
    qed
  qed
next
  case False
  then have r: "jsRem (v - 20) 10 = v mod 10"
    using jsRem_nonneg [of "v - 20" 10] by (simp add: mod_diff_eq) presburger
  have v4: "v \<noteq> 0" "v \<noteq> 1" "v \<noteq> 2" "v \<noteq> 3" using False by simp_all
  show ?thesis using False r v4
    by (auto simp: arrayGet_suffixes orElse_def renderOpt_def suffix_nonempty)
qed

lemmas eval_ordinal = ordinal_def jsRem_def arrayGet_def orElse_def renderOpt_def suffixes_def
  showInt_def showNat.simps js_def Let_def

text \<open>
  Claim C7. For every natural number \<open>n\<close> below \<open>2^53\<close> (the integers that a
  number of the program holds exactly and prints by their digits), \<open>ordinal(n)\<close> is
  the digits of \<open>n\<close> followed by its English ordinal suffix: \<open>th\<close> for the teens,
  otherwise \<open>st\<close>, \<open>nd\<close>, \<open>rd\<close> for a last digit 1, 2, 3, and \<open>th\<close> for everything
  else. In particular \<open>ordinal(1)\<close> is \<open>"1st"\<close>, \<open>ordinal(11)\<close> is \<open>"11th"\<close>,
  \<open>ordinal(21)\<close> is \<open>"21st"\<close> and \<open>ordinal(112)\<close> is \<open>"112th"\<close>.
\<close>

theorem ordinal_refines:
  "(n < 2 ^ 53 \<longrightarrow> ordinal (int n) = showNat n @ ordinalSuffix_spec n) \<and>
   ordinal 1 = js ''1st'' \<and> ordinal 11 = js ''11th'' \<and>
   ordinal 21 = js ''21st'' \<and> ordinal 112 = js ''112th''"
proof -
  have v: "jsRem (int n) 100 = int (n mod 100)"
    using jsRem_nonneg [of "int n" 100] by (simp add: zmod_int)
  have m10: "int (n mod 100) mod 10 = int (n mod 10)"
    by (simp add: zmod_int mod_mod_cancel flip: of_nat_mod)
  have "ordinal (int n) = showNat n @ ordinalSuffix_spec n"
    unfolding ordinal_def Let_def v
    using suffix_choice [of "int (n mod 100)"] m10
    by (simp add: ordinalSuffix_spec_def showInt_def)
  moreover have "ordinal 1 = js ''1st''" by (simp add: eval_ordinal)
  moreover have "ordinal 11 = js ''11th''" by (simp add: eval_ordinal)
  moreover have "ordinal 21 = js ''21st''" by (simp add: eval_ordinal)
  moreover have "ordinal 112 = js ''112th''" by (simp add: eval_ordinal)
  ultimately show ?thesis by blast
qed

theorem ordinal_refines_witness:
  "(1013::nat) < 2 ^ 53 \<and> ordinalSuffix_spec 1013 = js ''th'' \<and> ordinal 1013 = js ''1013th''"
proof -
  have h: "(1013::nat) < 2 ^ 53" by simp
  have s: "ordinalSuffix_spec 1013 = js ''th''" by (simp add: ordinalSuffix_spec_def)
  have d: "showNat 1013 = js ''1013''" by (simp add: showNat.simps js_def)
  from ordinal_refines [of 1013] h have "ordinal (int 1013) = showNat 1013 @ ordinalSuffix_spec 1013"
    by blast
  then have "ordinal 1013 = js ''1013th''" unfolding s d by (simp add: js_def)
  with h s show ?thesis by blast
qed

subsection \<open>analyzeSentence\<close>

lemma foldl_plus_sum_list:
  "foldl (\<lambda>sum w. sum + f w) a ws = a + sum_list (map f ws)" for a :: int
  by (induction ws arbitrary: a) simp_all

lemma tokenize_dropWhile: "tokenizeWords_spec (dropWhile isSpace s) = tokenizeWords_spec s"
  by (induction s) simp_all

lemma tokenize_nonspace:
  assumes "s \<noteq> []" and "\<not> isSpace (hd s)"
  shows "tokenizeWords_spec s =
         takeWhile (\<lambda>x. \<not> isSpace x) s # tokenizeWords_spec (dropWhile (\<lambda>x. \<not> isSpace x) s)"
  using assms by (cases s) simp_all

lemma splitOn_unfold:
  "splitOn sep s =
     (if dropWhile (\<lambda>c. \<not> sep c) s = [] then [takeWhile (\<lambda>c. \<not> sep c) s]
      else takeWhile (\<lambda>c. \<not> sep c) s #
           splitOn sep (dropWhile sep (dropWhile (\<lambda>c. \<not> sep c) s)))"
  by (subst splitOn.simps) (simp only: Let_def)

lemma splitOn_tokens:
  "s \<noteq> [] \<Longrightarrow> \<not> isSpace (hd s) \<Longrightarrow> \<not> isSpace (last s) \<Longrightarrow>
   splitOn isSpace s = tokenizeWords_spec s"
proof (induction s rule: length_induct)
  case (1 s)
  define piece where "piece = takeWhile (\<lambda>c. \<not> isSpace c) s"
  define rest where "rest = dropWhile (\<lambda>c. \<not> isSpace c) s"
  have s: "s = piece @ rest" unfolding piece_def rest_def by simp
  have piece: "piece \<noteq> []"
    unfolding piece_def using 1(2,3) by (cases s) simp_all
  have tok: "tokenizeWords_spec s = piece # tokenizeWords_spec rest"
    unfolding piece_def rest_def using tokenize_nonspace [OF 1(2,3)] .
  have unf: "splitOn isSpace s =
     (if rest = [] then [piece] else piece # splitOn isSpace (dropWhile isSpace rest))"
    unfolding piece_def rest_def by (rule splitOn_unfold)
  show ?case
  proof (cases "rest = []")
    case True
    have "splitOn isSpace s = [piece]"
      using unf True by (simp only: simp_thms if_True)
    then show ?thesis using tok True by (simp only: tokenizeWords_spec.simps)
  next
    case False
    define s' where "s' = dropWhile isSpace rest"
    have split: "splitOn isSpace s = piece # splitOn isSpace s'"
      using unf False by (simp only: if_False s'_def)
    have lastrest: "last s = last rest" using s False by simp
    have ne: "s' \<noteq> []"
    proof
      assume "s' = []"
      then have "\<forall>x\<in>set rest. isSpace x" unfolding s'_def by (simp add: dropWhile_eq_Nil_conv)
      moreover have "last rest \<in> set rest" using False by simp
      ultimately show False using 1(4) lastrest by simp
    qed
    have hd: "\<not> isSpace (hd s')" unfolding s'_def using ne hd_dropWhile [of isSpace rest]
      by (simp add: s'_def)
    have "rest = takeWhile isSpace rest @ s'" unfolding s'_def by simp
    then have "last rest = last s'" using ne by (metis last_appendR)
    then have last: "\<not> isSpace (last s')" using 1(4) lastrest by simp
    have "length s' \<le> length rest" unfolding s'_def by (rule length_dropWhile_le)
    moreover have "length rest < length s" using s piece by (metis length_append length_greater_0_conv less_add_same_cancel2)
    ultimately have "length s' < length s" by simp
    then have "splitOn isSpace s' = tokenizeWords_spec s'"
      using 1(1) ne hd last by blast
    moreover have "tokenizeWords_spec s' = tokenizeWords_spec rest"
      unfolding s'_def by (rule tokenize_dropWhile)
    ultimately show ?thesis using split tok by simp
  qed
qed

lemma trimmed_ends:
  assumes "trim s = s" and "s \<noteq> []"
  shows "\<not> isSpace (hd s)" and "\<not> isSpace (last s)"
proof -
  define d where "d = dropWhile isSpace s"
  define r where "r = dropWhile isSpace (rev d)"
  have t: "s = rev r" using assms(1) unfolding trim_def r_def d_def by simp
  then have rne: "r \<noteq> []" using assms(2) by simp
  have "\<not> isSpace (hd r)" unfolding r_def using rne hd_dropWhile [of isSpace "rev d"]
    by (simp add: r_def)
  then show "\<not> isSpace (last s)" using t rne by (simp add: last_rev)
  have "rev d = takeWhile isSpace (rev d) @ r" unfolding r_def by simp
  then have "last (rev d) = last r" using rne by (metis last_appendR)
  then have "hd d = last r" using rne r_def by (metis dropWhile.simps(1) last_rev rev_is_Nil_conv)
  moreover have "d \<noteq> []" using rne r_def by auto
  then have "\<not> isSpace (hd d)" unfolding d_def using hd_dropWhile [of isSpace s] by simp
  moreover have "hd s = last r" using t rne by (simp add: hd_rev)
  ultimately show "\<not> isSpace (hd s)" by simp
qed

lemma sentenceScore_spec:
  assumes "trim s = s" and "s \<noteq> []"
  shows "sentenceScore s = riskScore_spec s"
proof -
  have "splitOn isSpace (trim s) = tokenizeWords_spec s"
    using splitOn_tokens [OF assms(2) trimmed_ends [OF assms]] assms(1) by simp
  then show ?thesis
    by (simp add: sentenceScore_def riskScore_spec_def Let_def foldl_plus_sum_list)
qed

lemma scenario_parts:
  "matchSentences scenarioText = [scenarioFirst, js '' '' @ scenarioSecond]"
  by (simp add: scenarioText_def scenarioFirst_def scenarioSecond_def eval_strings)

lemma scenario_trim:
  "trim scenarioFirst = scenarioFirst" "trim (js '' '' @ scenarioSecond) = scenarioSecond"
  "trim scenarioSecond = scenarioSecond"
  by (simp_all add: scenarioFirst_def scenarioSecond_def js_def trim_def isSpace_def)

lemma scenario_scores:
  "sentenceScore scenarioFirst = 29 / 2" "sentenceScore scenarioSecond = 513 / 13"
  by (simp_all add: scenarioFirst_def scenarioSecond_def eval_sentence)

lemma warn_score: "sentenceScore warnSentence = 51 / 2" "trim warnSentence = warnSentence"
  "warnSentence \<noteq> []"
  by (simp_all add: warnSentence_def eval_sentence)

lemma scenario_nonempty: "scenarioFirst \<noteq> []" "scenarioSecond \<noteq> []"
  by (simp_all add: scenarioFirst_def scenarioSecond_def js_def)

lemma analyzeSentence_tier: "analyzeSentence s = riskTier_spec (sentenceScore s)"
  by (simp add: analyzeSentence_def riskTier_spec_def Let_def)

lemma empty_sentence: "sentenceScore [] = 1 / 2" "riskScore_spec [] = 0"
  by (simp_all add: riskScore_spec_def eval_sentence)

lemma analyzeSentence_tier_spec:
  assumes "trim s = s"
  shows "analyzeSentence s = riskTier_spec (riskScore_spec s)"
proof (cases "s = []")
  case True
  then show ?thesis by (simp add: analyzeSentence_tier empty_sentence riskTier_spec_def)
next
  case False
  then show ?thesis using sentenceScore_spec [OF assms] by (simp add: analyzeSentence_tier)
qed

text \<open>
  Claim C5. For every trimmed sentence, the score is
  \<open>wordCount * 0.5 + (syllableTotal / max(wordCount, 1)) * 10 + punctuationCount * 2\<close>,
  the punctuation being comma, semicolon, colon, em dash and en dash; a score of 35 or
  more is Danger, a score from 25 up to 35 is Warn, anything lower is None. In the
  scenario of two sentences the first scores None and the second Danger. (The score of
  the code is that of the specification for every sentence that is not empty; for the
  empty string the code counts one empty word, and the tier is None either way. The
  quotient is exact here, not rounded to a double.)
\<close>

theorem analyzeSentence_score:
  "analyzeSentence s = riskTier_spec (sentenceScore s) \<and>
   (trim s = s \<and> s \<noteq> [] \<longrightarrow> sentenceScore s = riskScore_spec s) \<and>
   (trim s = s \<longrightarrow> analyzeSentence s = riskTier_spec (riskScore_spec s)) \<and>
   map trim (matchSentences scenarioText) = [scenarioFirst, scenarioSecond] \<and>
   analyzeSentence scenarioFirst = None \<and>
   analyzeSentence scenarioSecond = Some Danger"
proof -
  have a: "trim s = s \<and> s \<noteq> [] \<longrightarrow> sentenceScore s = riskScore_spec s"
    using sentenceScore_spec by blast
  have b: "trim s = s \<longrightarrow> analyzeSentence s = riskTier_spec (riskScore_spec s)"
    using analyzeSentence_tier_spec by blast
  have e: "map trim (matchSentences scenarioText) = [scenarioFirst, scenarioSecond]"
    by (simp add: scenario_parts scenario_trim)
  have f: "analyzeSentence scenarioFirst = None"
    by (simp add: analyzeSentence_def Let_def scenario_scores)
  have g: "analyzeSentence scenarioSecond = Some Danger"
    by (simp add: analyzeSentence_def Let_def scenario_scores)
  from analyzeSentence_tier [of s] a b e f g show ?thesis by blast
qed

theorem analyzeSentence_score_witness:
  "trim warnSentence = warnSentence \<and> warnSentence \<noteq> [] \<and>
   riskScore_spec warnSentence = 51 / 2 \<and>
   analyzeSentence warnSentence = Some Warn \<and>
   trim scenarioSecond = scenarioSecond \<and> scenarioSecond \<noteq> [] \<and>
   riskScore_spec scenarioSecond = 513 / 13 \<and>
   riskTier_spec (riskScore_spec scenarioSecond) = Some Danger"
proof -
  from analyzeSentence_score [of warnSentence] warn_score(2,3)
  have "sentenceScore warnSentence = riskScore_spec warnSentence"
    and t: "analyzeSentence warnSentence = riskTier_spec (riskScore_spec warnSentence)"
    by blast+
  then have w: "riskScore_spec warnSentence = 51 / 2"
    using warn_score(1) by simp
  have "riskTier_spec (51 / 2) = Some Warn" by (simp add: riskTier_spec_def)
  then have w': "analyzeSentence warnSentence = Some Warn"
    using t w by simp
  from analyzeSentence_score [of scenarioSecond] scenario_trim(3) scenario_nonempty(2)
  have "sentenceScore scenarioSecond = riskScore_spec scenarioSecond"
    and t2: "analyzeSentence scenarioSecond = riskTier_spec (riskScore_spec scenarioSecond)"
      "analyzeSentence scenarioSecond = Some Danger"
    by blast+
  then have s: "riskScore_spec scenarioSecond = 513 / 13"
    using scenario_scores(2) by simp
  have s': "riskTier_spec (riskScore_spec scenarioSecond) = Some Danger"
    using t2 by simp
  from w w' s s' warn_score(2,3) scenario_trim(3) scenario_nonempty(2) show ?thesis by blast
qed

subsection \<open>The score in doubles\<close>

text \<open>
  A threshold of at most 35 is reached by the rounded score exactly when it is reached
  by the exact one. When the words and the punctuation alone reach it, so do both.
  Otherwise there are fewer than 70 words, the exact score is a multiple of
  \<open>1 / (2 * wordCount)\<close>, so it is at the threshold or at least \<open>1 / 138\<close> from it,
  and the threshold minus the part of the words and of the punctuation is a multiple
  \<open>j / 2\<close> of a half, which the quotient \<open>j / 20\<close> times 10 gives without error.
\<close>

lemma half_steps:
  "list_all (\<lambda>j. double (double (of_nat j / 20) * 10) = of_nat j / 2) [1..<71]"
  by (simp add: upt_rec eval_double)


lemma score_threshold:
  fixes w p T :: nat and s :: int
  assumes s: "0 \<le> s" and w: "w < 2 ^ 53" and p: "p < 2 ^ 53" and T: "T \<le> 35"
  shows "of_nat T \<le> double (double (double (of_nat w * (1 / 2)) +
                                   double (double (of_int s / of_nat (max w 1)) * 10)) +
                           double (of_nat p * 2))
         \<longleftrightarrow> (of_nat T :: rat) \<le> of_nat w * (1 / 2) + of_int s / of_nat (max w 1) * 10 + of_nat p * 2"
proof -
  define a :: rat where "a = of_nat w * (1 / 2)"
  define b :: rat where "b = of_nat p * 2"
  define x :: rat where "x = of_int s / of_nat (max w 1)"
  define avg where "avg = double x"
  define t where "t = double (avg * 10)"
  define S1 where "S1 = double (a + t)"
  define S2 where "S2 = double (S1 + b)"
  have a0: "0 \<le> a" and b0: "0 \<le> b" unfolding a_def b_def by simp_all
  have x0: "0 \<le> x" unfolding x_def using s by simp
  have avg0: "0 \<le> avg" unfolding avg_def using x0 by (rule double_nonneg)
  have t0: "0 \<le> t" unfolding t_def using avg0 by (intro double_nonneg) simp
  have S10: "0 \<le> S1" unfolding S1_def using a0 t0 by (intro double_nonneg) simp
  have "a = of_int (int w) * power_int 2 (- 1)" unfolding a_def by (simp add: power_int_minus)
  moreover have "\<bar>int w\<bar> < 2 ^ 53" using w by simp
  ultimately have ra: "representable a" by (simp only: representable_scaled_int)
  have "b = of_int (int p) * power_int 2 1" unfolding b_def by simp
  moreover have "\<bar>int p\<bar> < 2 ^ 53" using p by simp
  ultimately have rb: "representable b" by (simp only: representable_scaled_int)
  have da: "double a = a" using a0 ra by (rule double_exact_nonneg)
  have db: "double b = b" using b0 rb by (rule double_exact_nonneg)
  have rT: "representable (of_nat T)"
    using T by (intro representable_of_nat) simp
  have goal: "of_nat T \<le> S2 \<longleftrightarrow> of_nat T \<le> a + x * 10 + b"
  proof (cases "of_nat T \<le> a + b")
    case True
    have "a \<le> S1" unfolding S1_def using a0 t0 ra by (intro double_ge_nonneg) simp_all
    with True have "of_nat T \<le> S1 + b" by simp
    then have "of_nat T \<le> S2" unfolding S2_def using S10 b0 rT by (intro double_ge_nonneg) simp_all
    moreover have "of_nat T \<le> a + x * 10 + b" using True x0 by simp
    ultimately show ?thesis by simp
  next
    case False
    then have lt: "a + b < of_nat T" by simp
    have "a + b = of_nat (w + 4 * p) / 2" unfolding a_def b_def by simp
    with lt have "(of_nat (w + 4 * p) :: rat) < of_nat (2 * T)" by simp
    then have wp: "w + 4 * p < 2 * T" by (simp only: of_nat_less_iff)
    define j where "j = 2 * T - (w + 4 * p)"
    have j: "1 \<le> j" "j < 71" unfolding j_def using wp T by simp_all
    have "w + 4 * p + j = 2 * T" unfolding j_def using wp by simp
    then have "(of_nat (w + 4 * p + j) :: rat) = of_nat (2 * T)" by (simp only:)
    then have c: "a + b + of_nat j / 2 = of_nat T" unfolding a_def b_def by simp
    have "j \<in> set [1..<71]" using j by simp
    with half_steps have hs: "double (double (of_nat j / 20) * 10) = of_nat j / 2"
      unfolding list_all_iff by blast
    have W: "1 \<le> max w 1" "max w 1 \<le> 69" using wp T by simp_all
    show ?thesis
    proof (cases "of_nat j / 20 \<le> x")
      case True
      have "double (of_nat j / 20) \<le> avg"
        unfolding avg_def using True by (intro double_mono) simp_all
      then have "double (of_nat j / 20) * 10 \<le> avg * 10" by simp
      moreover have "0 \<le> double (of_nat j / 20) * 10"
        using double_nonneg [of "of_nat j / 20"] by simp
      ultimately have "double (double (of_nat j / 20) * 10) \<le> t"
        unfolding t_def by (intro double_mono)
      then have tj: "of_nat j / 2 \<le> t" unfolding hs .
      have "a + of_nat j / 2 = of_int (int T - 2 * int p)" using c unfolding b_def by simp
      moreover have "representable (of_int (int T - 2 * int p))"
        using wp T by (intro representable_of_int) simp
      ultimately have r: "representable (a + of_nat j / 2)" by simp
      have "a + of_nat j / 2 \<le> S1"
        unfolding S1_def using a0 t0 tj r by (intro double_ge_nonneg) simp_all
      then have "of_nat T \<le> S1 + b" using c by simp
      then have "of_nat T \<le> S2" unfolding S2_def using S10 b0 rT by (intro double_ge_nonneg) simp_all
      moreover have "of_nat T \<le> a + x * 10 + b" using True c by simp
      ultimately show ?thesis by simp
    next
      case False
      then have xlt: "x < of_nat j / 20" by simp
      define W where "W = max w 1"
      have Wpos: "0 < (of_nat W :: rat)" and W69: "(of_nat W :: rat) \<le> 69"
        using W unfolding W_def by simp_all
      have "of_int s * 20 < (of_nat j :: rat) * of_nat W"
        using xlt Wpos unfolding x_def W_def [symmetric] by (simp add: field_simps)
      then have "(of_int (s * 20) :: rat) < of_int (int j * int W)" by simp
      then have "s * 20 < int j * int W" by (simp only: of_int_less_iff)
      then have "s * 20 + 1 \<le> int j * int W" by simp
      then have "(of_int (s * 20 + 1) :: rat) \<le> of_int (int j * int W)" by (simp only: of_int_le_iff)
      then have "of_int s * 20 + 1 \<le> (of_nat j :: rat) * of_nat W" by simp
      then have "(of_int s * 20 + 1) / (2 * of_nat W) \<le> (of_nat j :: rat) * of_nat W / (2 * of_nat W)"
        using Wpos by (intro divide_right_mono) simp_all
      then have "x * 10 + 1 / (2 * of_nat W) \<le> of_nat j / 2"
        using Wpos unfolding x_def W_def [symmetric] by (simp add: field_simps)
      moreover have "1 / 138 \<le> 1 / (2 * (of_nat W :: rat))"
        using Wpos W69 by (simp add: field_simps)
      ultimately have x10: "x * 10 \<le> of_nat j / 2 - 1 / 138" by linarith
      have "(of_nat j :: rat) < of_nat 71" using j(2) by (simp only: of_nat_less_iff)
      then have j71: "(of_nat j :: rat) < 71" by simp
      with xlt have x4: "x \<le> 4" by linarith
      define v :: rat where "v = 1 / 2 ^ 53"
      have v: "0 \<le> v" "v \<le> 1 / 32768" unfolding v_def by simp_all
      have "\<bar>avg - x\<bar> \<le> x * v"
      proof (cases "x = 0")
        case True
        then show ?thesis unfolding avg_def by (simp add: double_zero)
      next
        case False
        with x0 have "0 < x" by simp
        from double_error [OF this] show ?thesis unfolding avg_def v_def by simp
      qed
      moreover have "x * v \<le> 4 * v" using x4 v(1) by (rule mult_right_mono)
      ultimately have avgx: "avg \<le> x + 4 * v" by linarith
      with x4 v have avg5: "avg * 10 \<le> 50" by linarith
      have "\<bar>t - avg * 10\<bar> \<le> avg * 10 * v"
      proof (cases "avg * 10 = 0")
        case True
        then show ?thesis unfolding t_def by (simp add: double_zero)
      next
        case False
        with avg0 have "0 < avg * 10" by simp
        from double_error [OF this] show ?thesis unfolding t_def v_def by simp
      qed
      moreover have "avg * 10 * v \<le> 50 * v" using avg5 v(1) by (rule mult_right_mono)
      ultimately have "t \<le> avg * 10 + 50 * v" by linarith
      with avgx x10 v have tle: "t \<le> of_nat j / 2 - 1 / 256" by linarith
      have "a + of_nat j / 2 - 1 / 256 = of_int (256 * (int T - 2 * int p) - 1) * power_int 2 (- 8)"
        using c unfolding b_def by (simp add: power_int_minus field_simps)
      moreover have "\<bar>256 * (int T - 2 * int p) - 1\<bar> < 2 ^ 53" using wp T by simp
      ultimately have r2: "representable (a + of_nat j / 2 - 1 / 256)"
        by (simp only: representable_scaled_int)
      have "S1 \<le> a + of_nat j / 2 - 1 / 256"
        unfolding S1_def using a0 t0 tle r2 by (intro double_le_nonneg) simp_all
      then have le3: "S1 + b \<le> of_nat T - 1 / 256" using c by linarith
      have "of_nat T - 1 / 256 = (of_int (256 * int T - 1) :: rat) * power_int 2 (- 8)"
        by (simp add: power_int_minus field_simps)
      moreover have "\<bar>256 * int T - 1\<bar> < 2 ^ 53" using T by simp
      ultimately have r3: "representable (of_nat T - 1 / 256)"
        by (simp only: representable_scaled_int)
      have "S2 \<le> of_nat T - 1 / 256"
        unfolding S2_def using S10 b0 le3 r3 by (intro double_le_nonneg) simp_all
      then have "\<not> of_nat T \<le> S2" by simp
      moreover have "\<not> of_nat T \<le> a + x * 10 + b" using x10 c by linarith
      ultimately show ?thesis by simp
    qed
  qed
  then have "of_nat T \<le> double (double (double a + double (double x * 10)) + double b)
             \<longleftrightarrow> of_nat T \<le> a + x * 10 + b"
    unfolding S2_def S1_def t_def avg_def da db .
  then show ?thesis unfolding a_def b_def x_def .
qed

lemma syllables_nonneg: "0 \<le> foldl (\<lambda>sum w. sum + countSyllables w) 0 ws"
proof -
  have "0 \<le> countSyllables w" for w by (simp add: countSyllables_def Let_def max_def)
  then have "0 \<le> sum_list (map countSyllables ws)" by (intro sum_list_nonneg) auto
  then show ?thesis by (simp add: foldl_plus_sum_list)
qed

lemma sentenceScore_double:
  assumes "length (splitOn isSpace (trim s)) < 2 ^ 53"
    and "length (filter isPunctuation s) < 2 ^ 53"
  shows "(35 \<le> sentenceScoreDouble s \<longleftrightarrow> 35 \<le> sentenceScore s) \<and>
         (25 \<le> sentenceScoreDouble s \<longleftrightarrow> 25 \<le> sentenceScore s)"
proof -
  define D where "D = sentenceScoreDouble s"
  define E where "E = sentenceScore s"
  have t: "of_nat T \<le> D \<longleftrightarrow> of_nat T \<le> E" if "T \<le> 35" for T :: nat
    unfolding D_def E_def sentenceScoreDouble_def sentenceScore_def Let_def
    using syllables_nonneg assms that by (rule score_threshold)
  from t [of 35] t [of 25] have "(35 \<le> D \<longleftrightarrow> 35 \<le> E) \<and> (25 \<le> D \<longleftrightarrow> 25 \<le> E)" by simp
  then show ?thesis unfolding D_def E_def .
qed

section \<open>The heatmap\<close>

lemma length_trim_le: "length (trim s) \<le> length s"
proof -
  have "length (trim s) \<le> length (dropWhile isSpace s)"
    unfolding trim_def using length_dropWhile_le [of isSpace "rev (dropWhile isSpace s)"] by simp
  also have "\<dots> \<le> length s" by (rule length_dropWhile_le)
  finally show ?thesis .
qed

lemma concat_matchSentences: "concat (matchSentences t) = dropWhile isTerminator t"
proof (induction t rule: matchSentences.induct)
  case 1
  show ?case by (simp add: matchSentences.simps)
next
  case (2 c s)
  show ?case
  proof (cases "isTerminator c")
    case True
    with 2 show ?thesis by (simp add: matchSentences.simps)
  next
    case False
    define after where "after = dropWhile (\<lambda>x. \<not> isTerminator x) (c # s)"
    define body where "body = takeWhile (\<lambda>x. \<not> isTerminator x) (c # s)"
    have ih: "concat (matchSentences (dropWhile isTerminator after)) =
              dropWhile isTerminator (dropWhile isTerminator after)"
      using 2(2) [OF False body_def after_def refl] .
    have idem: "dropWhile isTerminator (dropWhile isTerminator after) = dropWhile isTerminator after"
      by (metis dropWhile_idem)
    have "concat (matchSentences (c # s)) =
          body @ takeWhile isTerminator after @ dropWhile isTerminator after"
      using False ih idem
      by (simp add: matchSentences.simps(2) [of c s] Let_def after_def body_def del: dropWhile.simps takeWhile.simps)
    also have "\<dots> = body @ after" by simp
    also have "\<dots> = c # s" unfolding body_def after_def by (rule takeWhile_dropWhile_id)
    finally show ?thesis using False by simp
  qed
qed

lemma length_matchSentences_le: "sum_list (map length (matchSentences t)) \<le> length t"
proof -
  have "sum_list (map length (matchSentences t)) = length (concat (matchSentences t))"
    by (simp add: length_concat)
  also have "\<dots> \<le> length t"
    unfolding concat_matchSentences by (rule length_dropWhile_le)
  finally show ?thesis .
qed

lemma heatLoop_append:
  "heatLoop pos offset results parts = results @ heatLoop pos offset [] parts"
proof (induction parts arbitrary: offset results)
  case Nil
  show ?case by simp
next
  case (Cons part parts)
  show ?case
  proof (cases "trim part = []")
    case True
    then show ?thesis using Cons [of "offset + length part" results] by simp
  next
    case False
    show ?thesis
    proof (cases "analyzeSentence (trim part)")
      case None
      then show ?thesis using False Cons [of "offset + length part" results] by simp
    next
      case (Some lv)
      let ?new = "\<lparr>span_from = pos + 1 + offset,
                     span_to = pos + 1 + offset + length (trim part), span_level = lv\<rparr>"
      have "heatLoop pos offset results (part # parts) =
            heatLoop pos (offset + length part) (results @ [?new]) parts"
        using False Some by (simp add: Let_def)
      also have "\<dots> = (results @ [?new]) @ heatLoop pos (offset + length part) [] parts"
        by (rule Cons)
      also have "\<dots> = results @ heatLoop pos (offset + length part) [?new] parts"
        using Cons [of "offset + length part" "[?new]"] by simp
      also have "\<dots> = results @ heatLoop pos offset [] (part # parts)"
        using False Some by (simp add: Let_def)
      finally show ?thesis .
    qed
  qed
qed

lemma heatLoop_range:
  "\<forall>s\<in>set (heatLoop pos offset [] parts).
     withinRange (pos + 1 + offset) (pos + 1 + offset + sum_list (map length parts)) s"
proof (induction parts arbitrary: offset)
  case Nil
  show ?case by simp
next
  case (Cons part parts)
  have tl: "\<forall>s\<in>set (heatLoop pos (offset + length part) [] parts).
              withinRange (pos + 1 + offset) (pos + 1 + offset + sum_list (map length (part # parts))) s"
    using Cons [of "offset + length part"] by (auto simp: withinRange_def)
  show ?case
  proof (cases "trim part = []")
    case True
    then show ?thesis using tl by simp
  next
    case False
    show ?thesis
    proof (cases "analyzeSentence (trim part)")
      case None
      then show ?thesis using False tl by simp
    next
      case (Some lv)
      let ?new = "\<lparr>span_from = pos + 1 + offset,
                     span_to = pos + 1 + offset + length (trim part), span_level = lv\<rparr>"
      have eq: "heatLoop pos offset [] (part # parts) =
                ?new # heatLoop pos (offset + length part) [] parts"
        using False Some heatLoop_append [of pos "offset + length part" "[?new]" parts]
        by (simp add: Let_def)
      have "withinRange (pos + 1 + offset)
              (pos + 1 + offset + sum_list (map length (part # parts))) ?new"
        using False length_trim_le [of part] by (simp add: withinRange_def)
      then show ?thesis using tl eq by simp
    qed
  qed
qed

lemma heatLoop_disjoint:
  "sorted_wrt disjointBefore (heatLoop pos offset [] parts)"
proof (induction parts arbitrary: offset)
  case Nil
  show ?case by simp
next
  case (Cons part parts)
  show ?case
  proof (cases "trim part = []")
    case True
    then show ?thesis using Cons [of "offset + length part"] by simp
  next
    case False
    show ?thesis
    proof (cases "analyzeSentence (trim part)")
      case None
      then show ?thesis using False Cons [of "offset + length part"] by simp
    next
      case (Some lv)
      let ?new = "\<lparr>span_from = pos + 1 + offset,
                     span_to = pos + 1 + offset + length (trim part), span_level = lv\<rparr>"
      have eq: "heatLoop pos offset [] (part # parts) =
                ?new # heatLoop pos (offset + length part) [] parts"
        using False Some heatLoop_append [of pos "offset + length part" "[?new]" parts]
        by (simp add: Let_def)
      have "\<forall>s\<in>set (heatLoop pos (offset + length part) [] parts). disjointBefore ?new s"
        using heatLoop_range [of pos "offset + length part" parts] length_trim_le [of part]
        by (auto simp: withinRange_def disjointBefore_def)
      then show ?thesis using eq Cons [of "offset + length part"] by simp
    qed
  qed
qed

lemma heatCallback_append: "heatCallback results call = results @ heatCallback [] call"
  using heatLoop_append [of "snd call" 0 results "matchSentences (textContent (fst call))"]
  by (simp add: heatCallback_def Let_def)

lemma heatCallback_range:
  "\<forall>s\<in>set (heatCallback [] (nd, pos)).
     withinRange (pos + 1) (pos + 1 + length (textContent nd)) s"
proof -
  have "\<forall>s\<in>set (heatLoop pos 0 [] (matchSentences (textContent nd))).
     withinRange (pos + 1) (pos + 1 + length (textContent nd)) s"
    using heatLoop_range [of pos 0 "matchSentences (textContent nd)"]
      length_matchSentences_le [of "textContent nd"]
    by (auto simp: withinRange_def)
  then show ?thesis by (simp add: heatCallback_def Let_def)
qed

lemma heatCallback_disjoint: "sorted_wrt disjointBefore (heatCallback [] call)"
  using heatLoop_disjoint [of "snd call" 0 "matchSentences (textContent (fst call))"]
  by (simp add: heatCallback_def Let_def)

lemma foldl_heatCallback:
  "foldl heatCallback results calls = results @ concat (map (heatCallback []) calls)"
proof (induction calls arbitrary: results)
  case Nil
  show ?case by simp
next
  case (Cons call calls)
  show ?case
    using Cons [of "heatCallback results call"] heatCallback_append [of results call] by simp
qed

lemma getSentenceHeatmap_concat:
  "getSentenceHeatmap d = concat (map (heatCallback []) (descendants d))"
  by (simp add: getSentenceHeatmap_def foldl_heatCallback)


lemma contentSize_Block: "contentSize (Block cs) = sum_list (map nodeSize cs)"
proof -
  have "(\<lambda>c. case c of BlockAtom \<Rightarrow> 1 | _ \<Rightarrow> 2 + contentSize c) = nodeSize"
    by (rule ext) (simp add: nodeSize_def split: pmnode.splits)
  then show ?thesis by simp
qed

lemma length_inlineText_le: "length (inlineText i) \<le> inlineSize i"
  by (cases i) simp_all

lemma length_nodeText_Textblock: "length (nodeText (Textblock is)) \<le> contentSize (Textblock is)"
proof (induction "is")
  case Nil
  show ?case by simp
next
  case (Cons i "is")
  then show ?case using length_inlineText_le [of i] by simp
qed

lemma heat_walkInline: "concat (map (heatCallback []) (walkInline is p)) = []"
  by (induction "is" arbitrary: p) (simp_all add: heatCallback_def inlineNode_def)

lemma heatCallback_not_textblock:
  "\<not> isTextblock nd \<Longrightarrow> heatCallback [] (nd, pos) = []"
  by (simp add: heatCallback_def)

lemma withinRange_mono:
  "withinRange lo hi s \<Longrightarrow> lo' \<le> lo \<Longrightarrow> hi \<le> hi' \<Longrightarrow> withinRange lo' hi' s"
  by (auto simp: withinRange_def)

lemma heat_node_own:
  "(\<forall>s\<in>set (heatCallback [] (blockNode n, p)). withinRange (p + 1) (p + 1 + contentSize n) s) \<and>
   sorted_wrt disjointBefore (heatCallback [] (blockNode n, p)) \<and>
   (heatCallback [] (blockNode n, p) = [] \<or> concat (map (heatCallback []) (descend n (p + 1))) = [])"
proof (cases n)
  case (Textblock "is")
  have "\<forall>s\<in>set (heatCallback [] (blockNode n, p)).
          withinRange (p + 1) (p + 1 + length (textContent (blockNode n))) s"
    by (rule heatCallback_range)
  moreover have "length (textContent (blockNode n)) \<le> contentSize n"
    using length_nodeText_Textblock [of "is"] Textblock by (simp add: blockNode_def)
  ultimately have "\<forall>s\<in>set (heatCallback [] (blockNode n, p)).
          withinRange (p + 1) (p + 1 + contentSize n) s"
    by (auto simp: withinRange_def)
  then show ?thesis
    using heatCallback_disjoint [of "(blockNode n, p)"] Textblock by (simp add: heat_walkInline)
next
  case (Block cs)
  then have "heatCallback [] (blockNode n, p) = []"
    by (simp add: heatCallback_not_textblock blockNode_def)
  then show ?thesis by simp
next
  case BlockAtom
  then have "heatCallback [] (blockNode n, p) = []"
    by (simp add: heatCallback_not_textblock blockNode_def)
  then show ?thesis by simp
qed

lemma nodeSize_ge: "n \<noteq> BlockAtom \<Longrightarrow> nodeSize n = contentSize n + 2"
  by (cases n) (simp_all add: nodeSize_def)

lemma heat_tree:
  "(\<forall>s\<in>set (concat (map (heatCallback []) (descend n p))). withinRange p (p + contentSize n) s) \<and>
   sorted_wrt disjointBefore (concat (map (heatCallback []) (descend n p)))"
  "(\<forall>s\<in>set (concat (map (heatCallback []) (descendList ns p))).
      withinRange p (p + sum_list (map nodeSize ns)) s) \<and>
   sorted_wrt disjointBefore (concat (map (heatCallback []) (descendList ns p)))"
proof (induction n p and ns p rule: descend_descendList.induct)
  case (1 "is" p)
  show ?case by (simp add: heat_walkInline)
next
  case (2 cs p)
  then show ?case by (simp add: contentSize_Block del: contentSize.simps(2))
next
  case (3 p)
  show ?case by simp
next
  case (4 p)
  show ?case by simp
next
  case (5 n ns p)
  define A where "A = heatCallback [] (blockNode n, p)"
  define B where "B = concat (map (heatCallback []) (descend n (p + 1)))"
  define C where "C = concat (map (heatCallback []) (descendList ns (p + nodeSize n)))"
  have own: "\<forall>s\<in>set A. withinRange (p + 1) (p + 1 + contentSize n) s"
    and ownS: "sorted_wrt disjointBefore A" and one: "A = [] \<or> B = []"
    unfolding A_def B_def using heat_node_own [of n p] by blast+
  have below: "\<forall>s\<in>set B. withinRange (p + 1) (p + 1 + contentSize n) s"
    and belowS: "sorted_wrt disjointBefore B"
    unfolding B_def using 5(1) by blast+
  have rest: "\<forall>s\<in>set C. withinRange (p + nodeSize n) (p + nodeSize n + sum_list (map nodeSize ns)) s"
    and restS: "sorted_wrt disjointBefore C"
    unfolding C_def using 5(2) by blast+
  have atom: "n = BlockAtom \<Longrightarrow> A = [] \<and> B = []"
    unfolding A_def B_def by (simp add: heatCallback_not_textblock blockNode_def)
  have AB: "\<forall>s\<in>set (A @ B). withinRange (p + 1) (p + 1 + contentSize n) s"
    using own below by auto
  have ABle: "\<forall>s\<in>set (A @ B). span_to s \<le> p + nodeSize n"
  proof (cases "n = BlockAtom")
    case True
    then show ?thesis using atom by simp
  next
    case False
    show ?thesis
    proof
      fix s assume "s \<in> set (A @ B)"
      with AB have "withinRange (p + 1) (p + 1 + contentSize n) s" by (rule bspec)
      then show "span_to s \<le> p + nodeSize n"
        using nodeSize_ge [OF False] by (simp add: withinRange_def)
    qed
  qed
  have ABs: "sorted_wrt disjointBefore (A @ B)"
    using one ownS belowS by auto
  have cross: "\<forall>a\<in>set (A @ B). \<forall>c\<in>set C. disjointBefore a c"
  proof (intro ballI)
    fix a c assume a: "a \<in> set (A @ B)" and c: "c \<in> set C"
    from ABle a have "span_to a \<le> p + nodeSize n" by (rule bspec)
    moreover from rest c
    have "withinRange (p + nodeSize n) (p + nodeSize n + sum_list (map nodeSize ns)) c"
      by (rule bspec)
    ultimately show "disjointBefore a c" by (simp add: withinRange_def disjointBefore_def)
  qed
  have eq: "concat (map (heatCallback []) (descendList (n # ns) p)) = (A @ B) @ C"
    unfolding A_def B_def C_def by simp
  have range: "\<forall>s\<in>set ((A @ B) @ C).
      withinRange p (p + sum_list (map nodeSize (n # ns))) s"
  proof
    fix s assume "s \<in> set ((A @ B) @ C)"
    then consider "s \<in> set (A @ B)" | "s \<in> set C" by auto
    then show "withinRange p (p + sum_list (map nodeSize (n # ns))) s"
    proof cases
      case 1
      from AB 1 have "withinRange (p + 1) (p + 1 + contentSize n) s" by (rule bspec)
      moreover from ABle 1 have "span_to s \<le> p + nodeSize n" by (rule bspec)
      ultimately show ?thesis by (simp add: withinRange_def)
    next
      case 2
      from rest 2
      have "withinRange (p + nodeSize n) (p + nodeSize n + sum_list (map nodeSize ns)) s"
        by (rule bspec)
      then show ?thesis by (simp add: withinRange_def)
    qed
  qed
  have "sorted_wrt disjointBefore ((A @ B) @ C)"
    using ABs restS cross by (simp only: sorted_wrt_append) simp
  with range show ?case unfolding eq by blast
qed

lemma heatmap_disjoint: "sorted_wrt disjointBefore (getSentenceHeatmap d)"
  using heat_tree(1) [of d 0] by (simp add: getSentenceHeatmap_concat descendants_def)

lemma heatmap_nonempty_spans: "\<forall>s\<in>set (getSentenceHeatmap d). span_from s < span_to s"
  using heat_tree(1) [of d 0]
  by (simp add: getSentenceHeatmap_concat descendants_def withinRange_def)

lemma sorted_from_of_disjoint:
  assumes "sorted_wrt disjointBefore xs" and "\<forall>s\<in>set xs. span_from s < span_to s"
  shows "sorted (map span_from xs)"
proof -
  have "sorted_wrt (\<lambda>a b. span_from a \<le> span_from b) xs"
  proof (rule sorted_wrt_mono_rel [OF _ assms(1)])
    fix a b assume "a \<in> set xs" "b \<in> set xs" "disjointBefore a b"
    with assms(2) show "span_from a \<le> span_from b"
      by (fastforce simp: disjointBefore_def)
  qed
  then show ?thesis by (simp add: sorted_map)
qed

subsection \<open>The claims about the heatmap\<close>

lemma exampleText_parts:
  "matchSentences exampleText =
     [js ''A: b, c; d, e: f, g; h, i: j, k; l, m.'', js '' N: o, p; q, r: s, t; u, v: w, x; y, z.'']"
  by (simp add: exampleText_def eval_strings)

lemma example_first: "analyzeSentence (trim (js ''A: b, c; d, e: f, g; h, i: j, k; l, m.'')) = Some Danger"
  by (simp add: eval_sentence)

lemma example_second: "analyzeSentence (trim (js '' N: o, p; q, r: s, t; u, v: w, x; y, z.'')) = Some Danger"
  by (simp add: eval_sentence)

lemma example_lengths:
  "length (js ''A: b, c; d, e: f, g; h, i: j, k; l, m.'') = 38"
  "length (trim (js ''A: b, c; d, e: f, g; h, i: j, k; l, m.'')) = 38"
  "length (js '' N: o, p; q, r: s, t; u, v: w, x; y, z.'') = 39"
  "length (trim (js '' N: o, p; q, r: s, t; u, v: w, x; y, z.'')) = 38"
  "trim (js ''A: b, c; d, e: f, g; h, i: j, k; l, m.'') \<noteq> []"
  "trim (js '' N: o, p; q, r: s, t; u, v: w, x; y, z.'') \<noteq> []"
  by (simp_all add: js_def trim_def isSpace_def)

lemma exampleText_nonempty: "exampleText \<noteq> []"
  by (simp add: exampleText_def js_def)

lemma example_callback:
  "heatCallback [] (blockNode (Textblock [Text exampleText]), 0) =
     [\<lparr>span_from = 1, span_to = 39, span_level = Danger\<rparr>,
      \<lparr>span_from = 39, span_to = 77, span_level = Danger\<rparr>]"
  by (simp add: heatCallback_def blockNode_def exampleText_nonempty exampleText_parts
      example_first example_second example_lengths Let_def)

lemma example_heatmap:
  "getSentenceHeatmap exampleDoc =
     [\<lparr>span_from = 1, span_to = 39, span_level = Danger\<rparr>,
      \<lparr>span_from = 39, span_to = 77, span_level = Danger\<rparr>]"
proof -
  have d: "descendants exampleDoc =
     [(blockNode (Textblock [Text exampleText]), 0), (inlineNode (Text exampleText), 1)]"
    by (simp add: exampleDoc_def descendants_def)
  have i: "heatCallback [] (inlineNode (Text exampleText), p) = []" for p
    by (simp add: heatCallback_def inlineNode_def)
  show ?thesis
    by (simp add: getSentenceHeatmap_concat d i example_callback)
qed

text \<open>
  Claim C1. For every document, the spans that \<open>getSentenceHeatmap\<close> returns have
  \<open>from < to\<close>, no two spans that come from the same text block overlap, and the
  sequence is sorted by ascending \<open>from\<close>. (The spans of the result are those of the
  calls of the walk, one call after the other.)
\<close>

theorem heatmap_spans_ordered:
  "(\<forall>s\<in>set (getSentenceHeatmap d). span_from s < span_to s) \<and>
   getSentenceHeatmap d = concat (map (heatCallback []) (descendants d)) \<and>
   (\<forall>call\<in>set (descendants d). sorted_wrt disjointBefore (heatCallback [] call)) \<and>
   sorted (map span_from (getSentenceHeatmap d))"
proof -
  have a: "\<forall>s\<in>set (getSentenceHeatmap d). span_from s < span_to s"
    by (rule heatmap_nonempty_spans)
  have b: "getSentenceHeatmap d = concat (map (heatCallback []) (descendants d))"
    by (rule getSentenceHeatmap_concat)
  have c: "\<forall>call\<in>set (descendants d). sorted_wrt disjointBefore (heatCallback [] call)"
    by (simp add: heatCallback_disjoint)
  have e: "sorted (map span_from (getSentenceHeatmap d))"
    using sorted_from_of_disjoint [OF heatmap_disjoint a] .
  from a b c e show ?thesis by blast
qed

theorem heatmap_spans_ordered_witness:
  "getSentenceHeatmap exampleDoc =
     [\<lparr>span_from = 1, span_to = 39, span_level = Danger\<rparr>,
      \<lparr>span_from = 39, span_to = 77, span_level = Danger\<rparr>] \<and>
   (blockNode (Textblock [Text exampleText]), 0) \<in> set (descendants exampleDoc) \<and>
   sorted_wrt disjointBefore (heatCallback [] (blockNode (Textblock [Text exampleText]), 0)) \<and>
   sorted (map span_from (getSentenceHeatmap exampleDoc))"
proof -
  have c: "(blockNode (Textblock [Text exampleText]), 0) \<in> set (descendants exampleDoc)"
    by (simp add: exampleDoc_def descendants_def)
  from heatmap_spans_ordered [of exampleDoc] c
  have "sorted_wrt disjointBefore (heatCallback [] (blockNode (Textblock [Text exampleText]), 0))"
    and "sorted (map span_from (getSentenceHeatmap exampleDoc))"
    by blast+
  with c example_heatmap show ?thesis by blast
qed

text \<open>
  Claim C10. Every span that \<open>getSentenceHeatmap\<close> produces from a text block at
  position \<open>pos\<close> with text \<open>t\<close> lies within the content of that block:
  \<open>pos + 1 \<le> from\<close> and \<open>to \<le> pos + 1 + length t\<close>.
\<close>

theorem heatmap_span_within_block:
  "getSentenceHeatmap d = concat (map (heatCallback []) (descendants d)) \<and>
   (\<forall>s\<in>set (heatCallback [] (nd, pos)).
      pos + 1 \<le> span_from s \<and> span_to s \<le> pos + 1 + length (textContent nd))"
proof -
  have "\<forall>s\<in>set (heatCallback [] (nd, pos)).
      pos + 1 \<le> span_from s \<and> span_to s \<le> pos + 1 + length (textContent nd)"
    using heatCallback_range [of nd pos] by (simp add: withinRange_def)
  then show ?thesis using getSentenceHeatmap_concat [of d] by blast
qed

theorem heatmap_span_within_block_witness:
  "\<lparr>span_from = 39, span_to = 77, span_level = Danger\<rparr>
     \<in> set (heatCallback [] (blockNode (Textblock [Text exampleText]), 0)) \<and>
   length (textContent (blockNode (Textblock [Text exampleText]))) = 77 \<and>
   (0::nat) + 1 \<le> 39 \<and> (77::nat) \<le> 0 + 1 + 77"
proof -
  have m: "\<lparr>span_from = 39, span_to = 77, span_level = Danger\<rparr>
     \<in> set (heatCallback [] (blockNode (Textblock [Text exampleText]), 0))"
    by (simp add: example_callback)
  have l: "length (textContent (blockNode (Textblock [Text exampleText]))) = 77"
    by (simp add: blockNode_def exampleText_def js_def)
  from heatmap_span_within_block [of exampleDoc "blockNode (Textblock [Text exampleText])" 0] m l
  show ?thesis by simp
qed

lemma leading_parts:
  "matchSentences leadingText = [js ''A: b, c; d, e: f, g; h, i: j, k; l, m.'']"
  by (simp add: leadingText_def eval_strings)

lemma leading_heatmap:
  "getSentenceHeatmap leadingDoc = [\<lparr>span_from = 1, span_to = 39, span_level = Danger\<rparr>]"
proof -
  have n: "leadingText \<noteq> []" by (simp add: leadingText_def js_def)
  have c: "heatCallback [] (blockNode (Textblock [Text leadingText]), 0) =
     [\<lparr>span_from = 1, span_to = 39, span_level = Danger\<rparr>]"
    by (simp add: heatCallback_def blockNode_def n leading_parts example_first example_lengths
        Let_def)
  have d: "descendants leadingDoc =
     [(blockNode (Textblock [Text leadingText]), 0), (inlineNode (Text leadingText), 1)]"
    by (simp add: leadingDoc_def descendants_def)
  have i: "heatCallback [] (inlineNode (Text leadingText), p) = []" for p
    by (simp add: heatCallback_def inlineNode_def)
  show ?thesis by (simp add: getSentenceHeatmap_concat d i c)
qed

text \<open>
  Claim C4. The claim is that the runs of the segmenter cover the whole block text, so
  that their lengths add up to the length of the text and every run starts at the offset
  the loop tracks. At a block text that starts with terminators the code does
  otherwise. In the paragraph \<open>leadingText\<close> the only run is the sentence behind the
  three dots, of length 38 in a text of length 41; it starts at index 3 of the text, and the
  loop handles it at offset 0, so that its span starts at position 1 and not at
  position 4. (\<open>concat_matchSentences\<close> above is what holds in general: the runs cover
  the text behind its leading terminators.)
\<close>

theorem segmenter_skips_leading_terminators:
  "matchSentences leadingText = [js ''A: b, c; d, e: f, g; h, i: j, k; l, m.''] \<and>
   length leadingText = 41 \<and>
   sum_list (map length (matchSentences leadingText)) = 38 \<and>
   drop 3 leadingText = js ''A: b, c; d, e: f, g; h, i: j, k; l, m.'' \<and>
   getSentenceHeatmap leadingDoc = [\<lparr>span_from = 1, span_to = 39, span_level = Danger\<rparr>]"
  by (simp add: leading_parts leading_heatmap example_lengths) (simp add: leadingText_def js_def)

section \<open>The statistics\<close>

subsection \<open>The paragraph count\<close>

lemma inlineBetween_total:
  "to \<le> pos + sum_list (map inlineSize is) \<Longrightarrow> \<exists>calls. inlineBetween is pos from to nodeStart = Inr calls"
proof (induction "is" arbitrary: pos)
  case Nil
  then show ?case by simp
next
  case (Cons child rest)
  have "to \<le> (pos + inlineSize child) + sum_list (map inlineSize rest)"
    using Cons.prems by simp
  from Cons.IH [OF this] obtain later where
    "inlineBetween rest (pos + inlineSize child) from to nodeStart = Inr later" by blast
  then show ?case by (simp add: Let_def)
qed

lemma between_total:
  "to \<le> pos + sum_list (map nodeSize cs) \<longrightarrow>
     (\<exists>calls. fragmentBetween cs pos from to nodeStart = Inr calls)"
  "to \<le> contentSize n \<longrightarrow> (\<exists>calls. contentBetween n from to nodeStart = Inr calls)"
proof (induction cs pos "from" to nodeStart and n "from" to nodeStart
    rule: fragmentBetween_contentBetween.induct)
  case (1 pos "from" to nodeStart)
  show ?case by simp
next
  case (2 child rest pos "from" to nodeStart)
  show ?case
  proof
    assume le: "to \<le> pos + sum_list (map nodeSize (child # rest))"
    show "\<exists>calls. fragmentBetween (child # rest) pos from to nodeStart = Inr calls"
    proof (cases "pos < to")
      case False
      then show ?thesis by simp
    next
      case True
      define here where "here =
         (if pos + nodeSize child > from then
            (if contentSize child \<noteq> 0 then
               (case contentBetween child (from - (pos + 1))
                       (min (contentSize child) (to - (pos + 1))) (nodeStart + (pos + 1)) of
                  Inl e \<Rightarrow> Inl e
                | Inr below \<Rightarrow> Inr ((blockNode child, nodeStart + pos) # below))
             else Inr [(blockNode child, nodeStart + pos)])
          else Inr [])"
      have hereOk: "\<exists>h. here = Inr h"
      proof (cases "pos + nodeSize child > from \<and> contentSize child \<noteq> 0")
        case False
        then show ?thesis by (auto simp: here_def)
      next
        case c: True
        have "min (contentSize child) (to - (pos + 1)) \<le> contentSize child" by simp
        with 2(1) [of "pos + nodeSize child" "pos + 1"] True c
        obtain below where "contentBetween child (from - (pos + 1))
                       (min (contentSize child) (to - (pos + 1))) (nodeStart + (pos + 1)) = Inr below"
          by auto
        then show ?thesis using c by (simp add: here_def)
      qed
      then obtain h where h: "here = Inr h" by blast
      have "to \<le> (pos + nodeSize child) + sum_list (map nodeSize rest)" using le by simp
      with 2(2) [of "pos + nodeSize child" "pos + 1" h] True h
      obtain later where "fragmentBetween rest (pos + nodeSize child) from to nodeStart = Inr later"
        by (auto simp: here_def)
      moreover have "fragmentBetween (child # rest) pos from to nodeStart =
         (case here of
            Inl e \<Rightarrow> Inl e
          | Inr hh \<Rightarrow>
              (case fragmentBetween rest (pos + nodeSize child) from to nodeStart of
                 Inl e \<Rightarrow> Inl e
               | Inr later \<Rightarrow> Inr (hh @ later)))"
        using True unfolding here_def by (simp add: Let_def)
      ultimately show ?thesis using h by simp
    qed
  qed
next
  case (3 "is" "from" to nodeStart)
  show ?case using inlineBetween_total [of to 0 "is" "from" nodeStart] by simp
next
  case (4 cs "from" to nodeStart)
  then show ?case by (simp add: contentSize_Block del: contentSize.simps(2))
next
  case (5 "from" to nodeStart)
  show ?case by simp
qed

lemma countParagraphs_total:
  "selectionInside ed \<Longrightarrow> \<exists>ps. countParagraphs ed = Inr ps"
proof (cases ed)
  case None
  then show ?thesis by (simp add: countParagraphs_def)
next
  case (Some e)
  assume "selectionInside ed"
  then have c: "selection_from e = selection_to e \<or> selection_to e \<le> contentSize (doc e)"
    using Some by (simp add: selectionInside_def)
  show ?thesis
  proof (cases "selection_from e = selection_to e")
    case True
    then show ?thesis using Some by (simp add: countParagraphs_def)
  next
    case False
    with c have "selection_to e \<le> contentSize (doc e)" by simp
    with between_total(2) [of "selection_to e" "doc e" "selection_from e" 0]
    obtain calls where "nodesBetween (doc e) (selection_from e) (selection_to e) = Inr calls"
      by (auto simp: nodesBetween_def)
    then show ?thesis using Some False by (simp add: countParagraphs_def)
  qed
qed

lemma stats_returns: "selectionInside ed \<Longrightarrow> \<exists>r. stats sel snap ed = Inr r"
proof -
  assume "selectionInside ed"
  then obtain ps where "countParagraphs ed = Inr ps" using countParagraphs_total by blast
  then show ?thesis by (simp add: stats_def Let_def)
qed

lemmas eval_paragraphs = countParagraphs_def nodesBetween_def childCount_def nodeSize_def
  blockNode_def inlineNode_def Let_def

subsection \<open>The tally and the keyword list\<close>

lemma map_of_setProp: "map_of (setProp freq k v) = (map_of freq)(k \<mapsto> v)"
  by (induction freq) (auto simp: fun_eq_iff)

lemma keys_setProp:
  "map fst (setProp freq k v) =
     (if k \<in> set (map fst freq) then map fst freq else map fst freq @ [k])"
  by (induction freq) auto

lemma firstSeen_snoc_old: "a \<in> set keys \<Longrightarrow> firstSeen (keys @ [k]) a = firstSeen keys a"
  by (simp add: firstSeen_def)

lemma firstSeen_snoc_new: "k \<notin> set keys \<Longrightarrow> firstSeen (keys @ [k]) k = length keys"
  unfolding firstSeen_def by (induction keys) auto

lemma firstSeen_less: "a \<in> set keys \<Longrightarrow> firstSeen keys a < length keys"
  unfolding firstSeen_def by (induction keys) auto

lemma tallied_keys: "tallied keys freq \<Longrightarrow> set (map fst freq) = {k. keep k \<and> k \<in> set keys}"
proof -
  assume t: "tallied keys freq"
  have "set (map fst freq) = dom (map_of freq)" by (simp add: dom_map_of_conv_image_fst)
  also have "\<dots> = {k. keep k \<and> k \<in> set keys}"
    using t by (auto simp: tallied_def dom_def)
  finally show ?thesis .
qed

lemma tallied_skip:
  assumes t: "tallied keys freq" and k: "\<not> keep k"
  shows "tallied (keys @ [k]) freq"
proof -
  have keysof: "set (map fst freq) = {a. keep a \<and> a \<in> set keys}" using t by (rule tallied_keys)
  have m: "\<forall>a. map_of freq a =
        (if keep a \<and> a \<in> set (keys @ [k]) then Some (Num (count_list (keys @ [k]) a)) else None)"
  proof
    fix a
    show "map_of freq a =
        (if keep a \<and> a \<in> set (keys @ [k]) then Some (Num (count_list (keys @ [k]) a)) else None)"
    proof (cases "keep a")
      case True
      then have "a \<noteq> k" using k by auto
      then show ?thesis using t True by (simp add: tallied_def)
    next
      case False
      then show ?thesis using t by (simp add: tallied_def)
    qed
  qed
  have "sorted_wrt (\<lambda>a b. firstSeen keys a < firstSeen keys b) (map fst freq)"
    using t by (simp add: tallied_def)
  then have s: "sorted_wrt (\<lambda>a b. firstSeen (keys @ [k]) a < firstSeen (keys @ [k]) b) (map fst freq)"
  proof (rule sorted_wrt_mono_rel [rotated])
    fix a b assume "a \<in> set (map fst freq)" "b \<in> set (map fst freq)"
      and "firstSeen keys a < firstSeen keys b"
    then show "firstSeen (keys @ [k]) a < firstSeen (keys @ [k]) b"
      using keysof by (simp add: firstSeen_snoc_old)
  qed
  show ?thesis using t m s by (simp add: tallied_def)
qed

lemma tallied_step:
  assumes t: "tallied keys freq" and k: "keep k" and c: "k \<noteq> js ''constructor''"
  shows "tallied (keys @ [k]) (setProp freq k (nextCount freq k))"
proof -
  have keysof: "set (map fst freq) = {a. keep a \<and> a \<in> set keys}" using t by (rule tallied_keys)
  have look: "map_of freq k = (if k \<in> set keys then Some (Num (count_list keys k)) else None)"
    using t k by (simp add: tallied_def)
  have nc: "nextCount freq k = Num (count_list (keys @ [k]) k)"
    using look c by (simp add: nextCount_def)
  have m: "\<forall>a. map_of (setProp freq k (nextCount freq k)) a =
        (if keep a \<and> a \<in> set (keys @ [k]) then Some (Num (count_list (keys @ [k]) a)) else None)"
  proof
    fix a
    show "map_of (setProp freq k (nextCount freq k)) a =
        (if keep a \<and> a \<in> set (keys @ [k]) then Some (Num (count_list (keys @ [k]) a)) else None)"
    proof (cases "a = k")
      case True
      then show ?thesis using k nc by (simp add: map_of_setProp)
    next
      case False
      then show ?thesis using t by (simp add: map_of_setProp tallied_def)
    qed
  qed
  have d0: "distinct (map fst freq)" using t by (simp add: tallied_def)
  have s0: "sorted_wrt (\<lambda>a b. firstSeen keys a < firstSeen keys b) (map fst freq)"
    using t by (simp add: tallied_def)
  have s1: "sorted_wrt (\<lambda>a b. firstSeen (keys @ [k]) a < firstSeen (keys @ [k]) b) (map fst freq)"
    using s0
  proof (rule sorted_wrt_mono_rel [rotated])
    fix a b assume "a \<in> set (map fst freq)" "b \<in> set (map fst freq)"
      and "firstSeen keys a < firstSeen keys b"
    then show "firstSeen (keys @ [k]) a < firstSeen (keys @ [k]) b"
      using keysof by (simp add: firstSeen_snoc_old)
  qed
  show ?thesis
  proof (cases "k \<in> set keys")
    case True
    then have "k \<in> set (map fst freq)" using keysof k by simp
    then have "map fst (setProp freq k (nextCount freq k)) = map fst freq"
      by (simp add: keys_setProp)
    then show ?thesis using d0 s1 m by (simp add: tallied_def)
  next
    case False
    then have nk: "k \<notin> set (map fst freq)" using keysof by simp
    then have e: "map fst (setProp freq k (nextCount freq k)) = map fst freq @ [k]"
      by (simp add: keys_setProp)
    have "\<forall>a\<in>set (map fst freq). firstSeen (keys @ [k]) a < firstSeen (keys @ [k]) k"
    proof
      fix a assume "a \<in> set (map fst freq)"
      then have "a \<in> set keys" using keysof by simp
      then show "firstSeen (keys @ [k]) a < firstSeen (keys @ [k]) k"
        using False by (simp add: firstSeen_snoc_old firstSeen_snoc_new firstSeen_less)
    qed
    then have "sorted_wrt (\<lambda>a b. firstSeen (keys @ [k]) a < firstSeen (keys @ [k]) b)
                 (map fst freq @ [k])"
      using s1 by (simp add: sorted_wrt_append)
    moreover have "distinct (map fst freq @ [k])" using d0 nk by simp
    ultimately show ?thesis using m e by (simp add: tallied_def)
  qed
qed

lemma tallyWord_keep:
  "keep (normalizeKey w) \<Longrightarrow>
   tallyWord freq w = setProp freq (normalizeKey w) (nextCount freq (normalizeKey w))"
  by (simp add: tallyWord_def Let_def keep_def)

lemma tallyWord_skip: "\<not> keep (normalizeKey w) \<Longrightarrow> tallyWord freq w = freq"
  by (auto simp: tallyWord_def Let_def keep_def)

lemma tallied_foldl:
  "js ''constructor'' \<notin> set (map normalizeKey ws) \<Longrightarrow>
   tallied (map normalizeKey ws) (foldl tallyWord [] ws)"
proof (induction ws rule: rev_induct)
  case Nil
  show ?case by (simp add: tallied_def)
next
  case (snoc w ws)
  then have ih: "tallied (map normalizeKey ws) (foldl tallyWord [] ws)"
    and c: "normalizeKey w \<noteq> js ''constructor''"
    by auto
  have unf: "foldl tallyWord [] (ws @ [w]) = tallyWord (foldl tallyWord [] ws) w"
    and keys: "map normalizeKey (ws @ [w]) = map normalizeKey ws @ [normalizeKey w]"
    by simp_all
  show ?case
  proof (cases "keep (normalizeKey w)")
    case True
    show ?thesis
      unfolding unf keys tallyWord_keep [OF True] using tallied_step [OF ih True c] .
  next
    case False
    show ?thesis
      unfolding unf keys tallyWord_skip [OF False] using tallied_skip [OF ih False] .
  qed
qed

lemma tallied_entry:
  assumes "tallied keys freq" and "e \<in> set freq"
  shows "snd e = Num (count_list keys (fst e))"
proof -
  have "distinct (map fst freq)" using assms(1) by (simp add: tallied_def)
  then have "map_of freq (fst e) = Some (snd e)" using assms(2) by simp
  moreover have "map_of freq (fst e) =
     (if keep (fst e) \<and> fst e \<in> set keys then Some (Num (count_list keys (fst e))) else None)"
    using assms(1) by (simp add: tallied_def)
  ultimately show ?thesis by (simp split: if_splits)
qed

lemma set_insertBy: "set (insertBy cmp x ys) = insert x (set ys)"
  by (induction ys) auto

lemma set_sortBy: "set (sortBy cmp xs) = set xs"
  unfolding sortBy_def by (induction xs) (simp_all add: set_insertBy)

lemma length_insertBy: "length (insertBy cmp x ys) = Suc (length ys)"
  by (induction ys) auto

lemma length_sortBy: "length (sortBy cmp xs) = length xs"
  unfolding sortBy_def by (induction xs) (simp_all add: length_insertBy)

lemma sorted_insertBy:
  fixes key :: "'a \<Rightarrow> nat"
  assumes "sorted_wrt (\<lambda>a b. key b < key a \<or> (key a = key b \<and> P a b)) ys"
    and "\<forall>y\<in>set ys. P x y"
    and "\<forall>y\<in>set ys. (cmp x y > 0) = (key x < key y)"
  shows "sorted_wrt (\<lambda>a b. key b < key a \<or> (key a = key b \<and> P a b)) (insertBy cmp x ys)"
  using assms
proof (induction ys)
  case Nil
  show ?case by simp
next
  case (Cons y ys)
  show ?case
  proof (cases "cmp x y > 0")
    case True
    then have xy: "key x < key y" using Cons.prems(3) by simp
    have ih: "sorted_wrt (\<lambda>a b. key b < key a \<or> (key a = key b \<and> P a b)) (insertBy cmp x ys)"
      using Cons.IH Cons.prems by simp
    have "\<forall>z\<in>set (insertBy cmp x ys). key z < key y \<or> (key y = key z \<and> P y z)"
      using Cons.prems(1) xy by (auto simp: set_insertBy)
    then show ?thesis using True ih by simp
  next
    case False
    then have yx: "key y \<le> key x" using Cons.prems(3) by simp
    have "\<forall>z\<in>set (y # ys). key z < key x \<or> (key x = key z \<and> P x z)"
    proof
      fix z assume z: "z \<in> set (y # ys)"
      have "key z \<le> key y" using Cons.prems(1) z by auto
      then have "key z \<le> key x" using yx by simp
      moreover have "P x z" using Cons.prems(2) z by blast
      ultimately show "key z < key x \<or> (key x = key z \<and> P x z)" by auto
    qed
    then show ?thesis using False Cons.prems(1) by simp
  qed
qed

lemma sorted_sortBy:
  fixes key :: "'a \<Rightarrow> nat"
  assumes "sorted_wrt P xs"
    and "\<forall>a\<in>set xs. \<forall>b\<in>set xs. (cmp a b > 0) = (key a < key b)"
  shows "sorted_wrt (\<lambda>a b. key b < key a \<or> (key a = key b \<and> P a b)) (sortBy cmp xs)"
  using assms
proof (induction xs)
  case Nil
  show ?case by (simp add: sortBy_def)
next
  case (Cons x xs)
  have ih: "sorted_wrt (\<lambda>a b. key b < key a \<or> (key a = key b \<and> P a b)) (sortBy cmp xs)"
    using Cons by simp
  have p: "\<forall>y\<in>set (sortBy cmp xs). P x y"
    using Cons.prems(1) by (simp add: set_sortBy)
  have c: "\<forall>y\<in>set (sortBy cmp xs). (cmp x y > 0) = (key x < key y)"
    using Cons.prems(2) by (simp add: set_sortBy)
  have "sortBy cmp (x # xs) = insertBy cmp x (sortBy cmp xs)" by (simp add: sortBy_def)
  then show ?case
    using sorted_insertBy [where key = key and P = P and cmp = cmp and x = x
        and ys = "sortBy cmp xs", OF ih p c]
    by simp
qed

lemma set_objectEntries: "set (objectEntries freq) = set freq"
  by (auto simp: objectEntries_def)

lemma sorted_objectEntries:
  assumes "sorted_wrt (\<lambda>a b. firstSeen keys a < firstSeen keys b) (map fst freq)"
  shows "sorted_wrt (\<lambda>a b. keyBefore keys (fst a) (fst b)) (objectEntries freq)"
proof -
  let ?ix = "sort_key (\<lambda>e. parseNat (fst e)) (filter (\<lambda>e. isArrayIndex (fst e)) freq)"
  let ?rest = "filter (\<lambda>e. \<not> isArrayIndex (fst e)) freq"
  have "sorted (map (\<lambda>e. parseNat (fst e)) ?ix)" by (rule sorted_sort_key)
  then have "sorted_wrt (\<lambda>a b. parseNat (fst a) \<le> parseNat (fst b)) ?ix"
    by (simp add: sorted_map)
  then have a: "sorted_wrt (\<lambda>a b. keyBefore keys (fst a) (fst b)) ?ix"
  proof (rule sorted_wrt_mono_rel [rotated])
    fix a b assume "a \<in> set ?ix" "b \<in> set ?ix" "parseNat (fst a) \<le> parseNat (fst b)"
    then show "keyBefore keys (fst a) (fst b)" by (simp add: keyBefore_def)
  qed
  have "sorted_wrt (\<lambda>a b. firstSeen keys (fst a) < firstSeen keys (fst b)) freq"
    using assms by (simp add: sorted_wrt_map)
  then have "sorted_wrt (\<lambda>a b. firstSeen keys (fst a) < firstSeen keys (fst b)) ?rest"
    by (rule sorted_wrt_filter)
  then have b: "sorted_wrt (\<lambda>a b. keyBefore keys (fst a) (fst b)) ?rest"
  proof (rule sorted_wrt_mono_rel [rotated])
    fix a b assume "a \<in> set ?rest" "b \<in> set ?rest"
      "firstSeen keys (fst a) < firstSeen keys (fst b)"
    then show "keyBefore keys (fst a) (fst b)" by (simp add: keyBefore_def)
  qed
  have c: "\<forall>a\<in>set ?ix. \<forall>b\<in>set ?rest. keyBefore keys (fst a) (fst b)"
    by (simp add: keyBefore_def)
  show ?thesis
    unfolding objectEntries_def using a b c by (simp only: sorted_wrt_append simp_thms)
qed

lemma byCountDesc_Num:
  "snd a = Num x \<Longrightarrow> snd b = Num y \<Longrightarrow> (byCountDesc a b > 0) = (x < y)"
  by (simp add: byCountDesc_def)

lemma keywordEntries_ranked:
  assumes "js ''constructor'' \<notin> set (map normalizeKey ws)"
  shows "sorted_wrt (rankedBefore (map normalizeKey ws)) (map fst (keywordEntries ws))"
proof -
  let ?keys = "map normalizeKey ws"
  let ?freq = "foldl tallyWord [] ws"
  let ?key = "\<lambda>e. count_list ?keys (fst e)"
  have t: "tallied ?keys ?freq" using assms by (rule tallied_foldl)
  have num: "\<forall>e\<in>set (objectEntries ?freq). snd e = Num (?key e)"
    using tallied_entry [OF t] by (simp add: set_objectEntries)
  have cmp: "\<forall>a\<in>set (objectEntries ?freq). \<forall>b\<in>set (objectEntries ?freq).
               (byCountDesc a b > 0) = (?key a < ?key b)"
    using num byCountDesc_Num by blast
  have "sorted_wrt (\<lambda>a b. keyBefore ?keys (fst a) (fst b)) (objectEntries ?freq)"
    using t by (intro sorted_objectEntries) (simp add: tallied_def)
  from sorted_sortBy [where key = ?key and P = "\<lambda>a b. keyBefore ?keys (fst a) (fst b)"
      and cmp = byCountDesc and xs = "objectEntries ?freq", OF this cmp]
  have "sorted_wrt (\<lambda>a b. ?key b < ?key a \<or> (?key a = ?key b \<and> keyBefore ?keys (fst a) (fst b)))
          (sortBy byCountDesc (objectEntries ?freq))" .
  then have "sorted_wrt (\<lambda>a b. rankedBefore ?keys (fst a) (fst b))
          (sortBy byCountDesc (objectEntries ?freq))"
    by (simp add: rankedBefore_def frequency_def)
  then have "sorted_wrt (\<lambda>a b. rankedBefore ?keys (fst a) (fst b)) (keywordEntries ws)"
    unfolding keywordEntries_def by (rule sorted_wrt_take)
  then show ?thesis by (simp add: sorted_wrt_map)
qed

lemma length_keywordEntries: "length (keywordEntries ws) \<le> 10"
  by (simp add: keywordEntries_def)

lemma stats_keywords:
  assumes "stats sel snap ed = Inr st"
  shows "map word (topKeywords st) =
         map fst (keywordEntries (activeWords (trim (if sel \<noteq> [] then sel else snap))))"
proof -
  have "(\<lambda>x. word (case x of (w, count) \<Rightarrow> \<lparr>word = w, density_text = f count\<rparr>)) = fst" for f
    by (rule ext) (simp split: prod.splits)
  then show ?thesis
    using assms
    by (cases "countParagraphs ed") (auto simp: stats_def Let_def comp_def)
qed

lemma ranked_descending:
  assumes "sorted_wrt (rankedBefore keys) xs"
  shows "sorted_wrt (\<lambda>a b. frequency keys b \<le> frequency keys a) xs"
  using assms
proof (rule sorted_wrt_mono_rel [rotated])
  fix a b assume "rankedBefore keys a b"
  then show "frequency keys b \<le> frequency keys a" by (auto simp: rankedBefore_def)
qed

subsection \<open>Stop words and densities\<close>

lemma tally_keys_kept:
  "set (map fst (foldl tallyWord freq ws)) \<subseteq> set (map fst freq) \<union> {k. keep k}"
proof (induction ws arbitrary: freq)
  case Nil
  show ?case by simp
next
  case (Cons w ws)
  have "set (map fst (tallyWord freq w)) \<subseteq> set (map fst freq) \<union> {k. keep k}"
  proof (cases "keep (normalizeKey w)")
    case True
    then show ?thesis by (auto simp: tallyWord_keep keys_setProp split: if_splits)
  next
    case False
    then show ?thesis by (simp add: tallyWord_skip)
  qed
  with Cons [of "tallyWord freq w"] show ?case by auto
qed

lemma keywordEntries_subset: "set (keywordEntries ws) \<subseteq> set (foldl tallyWord [] ws)"
  unfolding keywordEntries_def
  using set_take_subset [of 10 "sortBy byCountDesc (objectEntries (foldl tallyWord [] ws))"]
  by (simp add: set_sortBy set_objectEntries)

lemma keywordEntries_kept: "\<forall>k\<in>set (map fst (keywordEntries ws)). keep k"
proof -
  have "set (map fst (keywordEntries ws)) \<subseteq> set (map fst (foldl tallyWord [] ws))"
    using keywordEntries_subset [of ws] by (simp add: image_mono)
  also have "\<dots> \<subseteq> {k. keep k}" using tally_keys_kept [of "[]" ws] by simp
  finally show ?thesis by blast
qed

lemma keywords_never_stop_words:
  assumes "stats sel snap ed = Inr st"
  shows "\<forall>w\<in>set (map word (topKeywords st)). w \<noteq> [] \<and> w \<notin> set STOP_WORDS"
  unfolding stats_keywords [OF assms] using keywordEntries_kept by (simp add: keep_def)

lemma sum_insertBy: "sum_list (map f (insertBy cmp x ys)) = f x + sum_list (map f ys)"
  for f :: "'a \<Rightarrow> nat"
  by (induction ys) auto

lemma sum_sortBy: "sum_list (map f (sortBy cmp xs)) = sum_list (map f xs)"
  for f :: "'a \<Rightarrow> nat"
  unfolding sortBy_def by (induction xs) (simp_all add: sum_insertBy)

lemma sum_insort_key: "sum_list (map f (insort_key g x ys)) = f x + sum_list (map f ys)"
  for f :: "'a \<Rightarrow> nat"
  by (induction ys) auto

lemma sum_sort_key: "sum_list (map f (sort_key g xs)) = sum_list (map f xs)"
  for f :: "'a \<Rightarrow> nat"
  by (induction xs) (simp_all add: sum_insort_key)

lemma sum_filter_split:
  "sum_list (map f (filter P xs)) + sum_list (map f (filter (\<lambda>x. \<not> P x) xs)) = sum_list (map f xs)"
  for f :: "'a \<Rightarrow> nat"
  by (induction xs) auto

lemma sum_objectEntries: "sum_list (map f (objectEntries freq)) = sum_list (map f freq)"
  for f :: "jsstring \<times> jsval \<Rightarrow> nat"
  by (simp add: objectEntries_def sum_sort_key sum_filter_split)

lemma sum_take_le: "sum_list (map f (take n xs)) \<le> sum_list (map f xs)"
  for f :: "'a \<Rightarrow> nat"
proof -
  have "sum_list (map f xs) = sum_list (map f (take n xs)) + sum_list (map f (drop n xs))"
    by (metis append_take_drop_id map_append sum_list_append)
  then show ?thesis by simp
qed

lemma sum_indicator_distinct:
  "distinct ks \<Longrightarrow> sum_list (map (\<lambda>k. if x = k then 1 else 0) ks) \<le> (1::nat)"
proof (induction ks)
  case Nil
  show ?case by simp
next
  case (Cons k ks)
  show ?case
  proof (cases "x = k")
    case True
    then have "x \<notin> set ks" using Cons.prems by simp
    then have "sum_list (map (\<lambda>k. if x = k then 1 else 0) ks) = (0::nat)"
      by (induction ks) auto
    then show ?thesis using True by simp
  next
    case False
    then show ?thesis using Cons by simp
  qed
qed

lemma sum_count_list_distinct:
  "distinct ks \<Longrightarrow> sum_list (map (count_list xs) ks) \<le> length xs"
proof (induction xs)
  case Nil
  show ?case by simp
next
  case (Cons x xs)
  have "sum_list (map (count_list (x # xs)) ks) =
        sum_list (map (\<lambda>k. count_list xs k + (if x = k then 1 else 0)) ks)"
    by (rule arg_cong [where f = sum_list]) (rule map_cong, simp_all)
  also have "\<dots> = sum_list (map (count_list xs) ks) +
                    sum_list (map (\<lambda>k. if x = k then 1 else 0) ks)"
    by (simp add: sum_list_addf)
  also have "\<dots> \<le> length xs + 1"
    using Cons.IH [OF Cons.prems] sum_indicator_distinct [OF Cons.prems, of x]
    by (rule add_mono)
  finally show ?case by (simp del: count_list.simps)
qed

lemma keyword_counts_le:
  assumes "js ''constructor'' \<notin> set (map normalizeKey ws)"
  shows "(\<forall>e\<in>set (keywordEntries ws). snd e = Num (count_list (map normalizeKey ws) (fst e))) \<and>
         sum_list (map (\<lambda>e. count_list (map normalizeKey ws) (fst e)) (keywordEntries ws)) \<le> length ws"
proof -
  let ?keys = "map normalizeKey ws"
  let ?freq = "foldl tallyWord [] ws"
  let ?f = "\<lambda>e. count_list ?keys (fst e)"
  have t: "tallied ?keys ?freq" using assms by (rule tallied_foldl)
  have a: "\<forall>e\<in>set (keywordEntries ws). snd e = Num (?f e)"
    using tallied_entry [OF t] keywordEntries_subset [of ws] by blast
  have "sum_list (map ?f (keywordEntries ws)) \<le>
        sum_list (map ?f (sortBy byCountDesc (objectEntries ?freq)))"
    unfolding keywordEntries_def by (rule sum_take_le)
  also have "\<dots> = sum_list (map ?f ?freq)" by (simp only: sum_sortBy sum_objectEntries)
  also have "\<dots> = sum_list (map (count_list ?keys) (map fst ?freq))" by (simp add: comp_def)
  also have "\<dots> \<le> length ?keys"
    using t by (intro sum_count_list_distinct) (simp add: tallied_def)
  finally show ?thesis using a by simp
qed

lemma sum_scaled:
  "(\<Sum>e\<leftarrow>xs. of_nat (f e) / of_nat n * 100) =
     (of_nat (sum_list (map f xs)) / of_nat n * 100 :: rat)"
  by (induction xs) (simp_all add: add_divide_distrib distrib_right)

lemma keyword_density_sum:
  assumes "js ''constructor'' \<notin> set (map normalizeKey ws)"
  shows "(\<forall>e\<in>set (keywordEntries ws).
            density (length ws) (snd e) =
              Finite (double (double (of_nat (count_list (map normalizeKey ws) (fst e)) /
                                      of_nat (length ws)) * 100))) \<and>
         (\<Sum>e\<leftarrow>keywordEntries ws.
            of_nat (count_list (map normalizeKey ws) (fst e)) / of_nat (length ws) * 100 :: rat) \<le> 100"
proof (cases "ws = []")
  case True
  then show ?thesis by (simp add: keywordEntries_def objectEntries_def sortBy_def)
next
  case False
  let ?n = "length ws"
  let ?f = "\<lambda>e. count_list (map normalizeKey ws) (fst e)"
  have n: "0 < ?n" using False by simp
  have num: "\<forall>e\<in>set (keywordEntries ws). snd e = Num (?f e)"
    and le: "sum_list (map ?f (keywordEntries ws)) \<le> ?n"
    using keyword_counts_le [OF assms] by blast+
  have a: "\<forall>e\<in>set (keywordEntries ws).
            density ?n (snd e) = Finite (double (double (of_nat (?f e) / of_nat ?n) * 100))"
    using num n by (simp add: density_def)
  have "(\<Sum>e\<leftarrow>keywordEntries ws. of_nat (?f e) / of_nat ?n * 100 :: rat) =
        of_nat (sum_list (map ?f (keywordEntries ws))) / of_nat ?n * 100"
    by (rule sum_scaled)
  also have "\<dots> \<le> 100"
    using le n by (simp add: field_simps)
  finally show ?thesis using a by blast
qed

subsection \<open>The three example texts\<close>

lemma stats_unfold:
  "stats sel snap ed =
     (case countParagraphs ed of
        Inl e \<Rightarrow> Inl e
      | Inr ps \<Rightarrow>
          Inr \<lparr>words = length (activeWords (trim (if sel \<noteq> [] then sel else snap))),
               characters = length (filter (\<lambda>c. \<not> isSpace c) (trim (if sel \<noteq> [] then sel else snap))),
               charactersWithFormatting = length (trim (if sel \<noteq> [] then sel else snap)),
               sentences = length (activeSentences (trim (if sel \<noteq> [] then sel else snap))),
               paragraphs = ps,
               readingTime = formatTime (length (activeWords (trim (if sel \<noteq> [] then sel else snap)))) READING_WPM,
               speakingTime = formatTime (length (activeWords (trim (if sel \<noteq> [] then sel else snap)))) SPEAKING_WPM,
               readingGrade =
                 (if gradeOf (length (activeWords (trim (if sel \<noteq> [] then sel else snap))))
                       (length (activeSentences (trim (if sel \<noteq> [] then sel else snap))))
                       (foldl (\<lambda>sum w. sum + countSyllables w) 0
                          (activeWords (trim (if sel \<noteq> [] then sel else snap)))) > 0
                  then ordinal (max 1 (mathRound
                     (gradeOf (length (activeWords (trim (if sel \<noteq> [] then sel else snap))))
                       (length (activeSentences (trim (if sel \<noteq> [] then sel else snap))))
                       (foldl (\<lambda>sum w. sum + countSyllables w) 0
                          (activeWords (trim (if sel \<noteq> [] then sel else snap)))))))
                  else unavailable),
               topKeywords =
                 map (\<lambda>(w, count). \<lparr>word = w,
                        density_text = toFixed1 (density
                          (length (activeWords (trim (if sel \<noteq> [] then sel else snap)))) count)\<rparr>)
                   (keywordEntries (activeWords (trim (if sel \<noteq> [] then sel else snap))))\<rparr>)"
  by (simp add: stats_def Let_def)

lemmas eval_numbers = gradeOf_def density_def toFixed1_def formatTime_def mathRound_def
  READING_WPM_def SPEAKING_WPM_def eval_double eval_ordinal

lemma ranked_trim: "trim rankedText = rankedText"
  by (simp add: rankedText_def js_def trim_def isSpace_def)

lemma ranked_words: "activeWords rankedText = rankedWords" "length rankedWords = 7"
  by (simp_all add: rankedText_def rankedWords_def activeWords_def eval_strings)

lemma ranked_sentences: "length (activeSentences rankedText) = 1"
  by (simp add: rankedText_def activeSentences_def eval_strings)

lemma ranked_characters:
  "length (filter (\<lambda>c. \<not> isSpace c) rankedText) = 23" "length rankedText = 29"
  by (simp_all add: rankedText_def js_def isSpace_def)

lemma ranked_syllables: "foldl (\<lambda>sum w. sum + countSyllables w) 0 rankedWords = 7"
  by (simp add: rankedWords_def eval_sentence)

lemma ranked_keys: "map normalizeKey rankedWords = map js [''zebra'', ''10'', ''apple'', ''9'', ''zebra'', ''the'', ''10'']"
  by (simp add: rankedWords_def normalizeKey_def eval_strings)

lemma ranked_tally:
  "foldl tallyWord [] rankedWords =
     [(js ''zebra'', Num 2), (js ''10'', Num 2), (js ''apple'', Num 1), (js ''9'', Num 1)]"
  by (simp add: rankedWords_def tallyWord_def normalizeKey_def nextCount_def STOP_WORDS_def eval_strings)

lemma ranked_entries:
  "keywordEntries rankedWords =
     [(js ''10'', Num 2), (js ''zebra'', Num 2), (js ''9'', Num 1), (js ''apple'', Num 1)]"
  by (simp add: keywordEntries_def ranked_tally objectEntries_def isArrayIndex_def parseNat_def
      sortBy_def byCountDesc_def js_def)

lemma ranked_stats:
  "stats [] rankedText None =
     Inr \<lparr>words = 7, characters = 23, charactersWithFormatting = 29, sentences = 1,
          paragraphs = 0, readingTime = js ''2 sec'', speakingTime = js ''3 sec'',
          readingGrade = unavailable,
          topKeywords =
            [\<lparr>word = js ''10'', density_text = js ''28.6''\<rparr>,
             \<lparr>word = js ''zebra'', density_text = js ''28.6''\<rparr>,
             \<lparr>word = js ''9'', density_text = js ''14.3''\<rparr>,
             \<lparr>word = js ''apple'', density_text = js ''14.3''\<rparr>]\<rparr>"
  by (simp add: stats_unfold countParagraphs_def ranked_trim ranked_words ranked_sentences
      ranked_characters ranked_syllables ranked_entries eval_numbers)

lemma chapter_trim: "trim chapterText = chapterText"
  by (simp add: chapterText_def js_def trim_def isSpace_def)

lemma chapter_words: "activeWords chapterText = chapterWords" "length chapterWords = 2"
  by (simp_all add: chapterText_def chapterWords_def activeWords_def eval_strings)

lemma chapter_sentences: "length (activeSentences chapterText) = 1"
  by (simp add: chapterText_def activeSentences_def eval_strings)

lemma chapter_characters:
  "length (filter (\<lambda>c. \<not> isSpace c) chapterText) = 8" "length chapterText = 9"
  by (simp_all add: chapterText_def js_def isSpace_def)

lemma chapter_syllables: "foldl (\<lambda>sum w. sum + countSyllables w) 0 chapterWords = 2"
  by (simp add: chapterWords_def eval_sentence)

lemma chapter_keys: "map normalizeKey chapterWords = map js [''chapter'', ''7'']"
  by (simp add: chapterWords_def normalizeKey_def eval_strings)

lemma chapter_tally:
  "foldl tallyWord [] chapterWords =
     [(js ''chapter'', Num 1), (js ''7'', Num 1)]"
  by (simp add: chapterWords_def tallyWord_def normalizeKey_def nextCount_def STOP_WORDS_def eval_strings)

lemma chapter_entries:
  "keywordEntries chapterWords =
     [(js ''7'', Num 1), (js ''chapter'', Num 1)]"
  by (simp add: keywordEntries_def chapter_tally objectEntries_def isArrayIndex_def parseNat_def
      sortBy_def byCountDesc_def js_def)

lemma chapter_stats:
  "stats [] chapterText None =
     Inr \<lparr>words = 2, characters = 8, charactersWithFormatting = 9, sentences = 1,
          paragraphs = 0, readingTime = js ''1 sec'', speakingTime = js ''1 sec'',
          readingGrade = unavailable,
          topKeywords =
            [\<lparr>word = js ''7'', density_text = js ''50.0''\<rparr>,
             \<lparr>word = js ''chapter'', density_text = js ''50.0''\<rparr>]\<rparr>"
  by (simp add: stats_unfold countParagraphs_def chapter_trim chapter_words chapter_sentences
      chapter_characters chapter_syllables chapter_entries eval_numbers)

lemma constructor_trim: "trim constructorText = constructorText"
  by (simp add: constructorText_def js_def trim_def isSpace_def)

lemma constructor_words: "activeWords constructorText = constructorWords" "length constructorWords = 4"
  by (simp_all add: constructorText_def constructorWords_def activeWords_def eval_strings)

lemma constructor_sentences: "length (activeSentences constructorText) = 1"
  by (simp add: constructorText_def activeSentences_def eval_strings)

lemma constructor_characters:
  "length (filter (\<lambda>c. \<not> isSpace c) constructorText) = 24" "length constructorText = 27"
  by (simp_all add: constructorText_def js_def isSpace_def)

lemma constructor_syllables: "foldl (\<lambda>sum w. sum + countSyllables w) 0 constructorWords = 6"
  by (simp add: constructorWords_def eval_sentence)

lemma constructor_keys: "map normalizeKey constructorWords = map js [''the'', ''constructor'', ''runs'', ''first'']"
  by (simp add: constructorWords_def normalizeKey_def eval_strings)

lemma constructor_tally:
  "foldl tallyWord [] constructorWords =
     [(js ''constructor'', ObjectText 1), (js ''runs'', Num 1), (js ''first'', Num 1)]"
  by (simp add: constructorWords_def tallyWord_def normalizeKey_def nextCount_def STOP_WORDS_def eval_strings)

lemma constructor_entries:
  "keywordEntries constructorWords =
     [(js ''constructor'', ObjectText 1), (js ''runs'', Num 1), (js ''first'', Num 1)]"
  by (simp add: keywordEntries_def constructor_tally objectEntries_def isArrayIndex_def parseNat_def
      sortBy_def byCountDesc_def js_def)

lemma constructor_stats:
  "stats [] constructorText None =
     Inr \<lparr>words = 4, characters = 24, charactersWithFormatting = 27, sentences = 1,
          paragraphs = 0, readingTime = js ''1 sec'', speakingTime = js ''2 sec'',
          readingGrade = js ''4th'',
          topKeywords =
            [\<lparr>word = js ''constructor'', density_text = js ''NaN''\<rparr>,
             \<lparr>word = js ''runs'', density_text = js ''25.0''\<rparr>,
             \<lparr>word = js ''first'', density_text = js ''25.0''\<rparr>]\<rparr>"
  by (simp add: stats_unfold countParagraphs_def constructor_trim constructor_words constructor_sentences
      constructor_characters constructor_syllables constructor_entries eval_numbers)

lemma ranked_active: "activeKeys [] rankedText = map js [''zebra'', ''10'', ''apple'', ''9'', ''zebra'', ''the'', ''10'']"
  by (simp add: activeKeys_def ranked_trim ranked_words ranked_keys)

lemma chapter_active: "activeKeys [] chapterText = [js ''chapter'', js ''7'']"
  by (simp add: activeKeys_def chapter_trim chapter_words chapter_keys)

subsection \<open>The claims about the statistics\<close>

lemma stats_of_empty:
  assumes "trim (if sel \<noteq> [] then sel else snap) = []"
  shows "stats sel snap ed = map_sum id emptyStatistics (countParagraphs ed)"
proof -
  have k: "keywordEntries [] = []"
    by (simp add: keywordEntries_def objectEntries_def sortBy_def)
  have f: "formatTime 0 w = js ''0 min''" for w by (simp add: formatTime_def)
  show ?thesis
    using assms
    by (cases "countParagraphs ed")
       (simp_all add: stats_def Let_def activeWords_def activeSentences_def gradeOf_def k f
          emptyStatistics_def)
qed

text \<open>
  Claim C3, as amended. For every active text whose trimmed form is empty, \<open>stats\<close>
  returns \<open>words\<close>, \<open>characters\<close>, \<open>charactersWithFormatting\<close> and \<open>sentences\<close> equal
  to zero, \<open>readingGrade\<close> equal to the unavailable sentinel and an empty keyword list.
  \<open>paragraphs\<close> does not come from the text: it is what the paragraph count gives for
  the editor, 0 without an editor, the number of children of the document without a
  selection, and the number of block nodes the selection walk meets otherwise; the count
  is there whenever the selection lies inside the document.
\<close>

theorem stats_empty_text:
  "trim (if sel \<noteq> [] then sel else snap) = [] \<longrightarrow>
     stats sel snap ed = map_sum id emptyStatistics (countParagraphs ed) \<and>
     (selectionInside ed \<longrightarrow> (\<exists>ps. countParagraphs ed = Inr ps)) \<and>
     countParagraphs None = Inr 0 \<and>
     (selection_from e = selection_to e \<longrightarrow> countParagraphs (Some e) = Inr (childCount (doc e)))"
proof
  assume a: "trim (if sel \<noteq> [] then sel else snap) = []"
  have b: "selectionInside ed \<longrightarrow> (\<exists>ps. countParagraphs ed = Inr ps)"
    using countParagraphs_total by blast
  have c: "countParagraphs None = Inr 0" by (simp add: countParagraphs_def)
  have d: "selection_from e = selection_to e \<longrightarrow> countParagraphs (Some e) = Inr (childCount (doc e))"
    by (simp add: countParagraphs_def)
  from stats_of_empty [OF a] b c d
  show "stats sel snap ed = map_sum id emptyStatistics (countParagraphs ed) \<and>
     (selectionInside ed \<longrightarrow> (\<exists>ps. countParagraphs ed = Inr ps)) \<and>
     countParagraphs None = Inr 0 \<and>
     (selection_from e = selection_to e \<longrightarrow> countParagraphs (Some e) = Inr (childCount (doc e)))"
    by blast
qed

theorem stats_empty_text_witness:
  "trim (if js '' '' \<noteq> [] then js '' '' else [10, 10]) = [] \<and>
   selectionInside (Some twoParagraphsEditor) \<and>
   stats (js '' '') [10, 10] (Some twoParagraphsEditor) = Inr (emptyStatistics 2) \<and>
   selection_from emptyDocEditor = selection_to emptyDocEditor \<and>
   countParagraphs (Some emptyDocEditor) = Inr 1"
proof -
  have t: "trim (if js '' '' \<noteq> [] then js '' '' else [10, 10]) = []"
    by (simp add: js_def trim_def isSpace_def)
  have i: "selectionInside (Some twoParagraphsEditor)"
    by (simp add: selectionInside_def twoParagraphsEditor_def)
  have p: "countParagraphs (Some twoParagraphsEditor) = Inr 2"
    by (simp add: twoParagraphsEditor_def eval_paragraphs)
  have s: "selection_from emptyDocEditor = selection_to emptyDocEditor"
    by (simp add: emptyDocEditor_def)
  have c: "childCount (doc emptyDocEditor) = 1"
    by (simp add: emptyDocEditor_def childCount_def)
  from stats_empty_text [of "js '' ''" "[10, 10]" "Some twoParagraphsEditor" emptyDocEditor]
    t i p s c
  show ?thesis by simp
qed

text \<open>
  The claim C3 as first stated has \<open>paragraphs\<close> equal to zero as well. In the empty
  document the text is empty and the document has one paragraph: \<open>paragraphs\<close> is 1.
\<close>

theorem stats_empty_text_counterexample:
  "trim [] = [] \<and>
   stats [] [] (Some emptyDocEditor) =
     Inr \<lparr>words = 0, characters = 0, charactersWithFormatting = 0, sentences = 0,
          paragraphs = 1, readingTime = js ''0 min'', speakingTime = js ''0 min'',
          readingGrade = unavailable, topKeywords = []\<rparr>"
proof -
  have "countParagraphs (Some emptyDocEditor) = Inr 1"
    by (simp add: emptyDocEditor_def eval_paragraphs)
  then show ?thesis
    using stats_of_empty [of "[]" "[]" "Some emptyDocEditor"]
    by (simp add: trim_def emptyStatistics_def)
qed

text \<open>
  Claim C2, as amended. For every input text the keyword list of \<open>stats\<close> has at most
  10 entries (and \<open>stats\<close> returns whenever the selection lies inside the document). When no word of the text normalises to \<open>constructor\<close>, the list is
  ordered by descending frequency, and two words of equal frequency appear in the order
  in which the language enumerates the keys of the tally object: the keys that are array
  indices first, by ascending value, then the other keys in the order in which they
  were first seen.
\<close>

theorem keywords_ranked:
  "(selectionInside ed \<longrightarrow> (\<exists>r. stats sel snap ed = Inr r)) \<and>
   (stats sel snap ed = Inr st \<longrightarrow>
     length (topKeywords st) \<le> 10 \<and>
     (js ''constructor'' \<notin> set (activeKeys sel snap) \<longrightarrow>
        sorted_wrt (\<lambda>a b. frequency (activeKeys sel snap) b \<le> frequency (activeKeys sel snap) a)
          (map word (topKeywords st)) \<and>
        sorted_wrt (rankedBefore (activeKeys sel snap)) (map word (topKeywords st))))"
proof (intro conjI impI)
  assume "selectionInside ed"
  then show "\<exists>r. stats sel snap ed = Inr r" by (rule stats_returns)
next
  assume s: "stats sel snap ed = Inr st"
  let ?ws = "activeWords (trim (if sel \<noteq> [] then sel else snap))"
  have w: "map word (topKeywords st) = map fst (keywordEntries ?ws)"
    using s by (rule stats_keywords)
  have "length (map word (topKeywords st)) \<le> 10"
    unfolding w using length_keywordEntries [of ?ws] by simp
  then have l: "length (topKeywords st) \<le> 10" by simp
  have r: "js ''constructor'' \<notin> set (activeKeys sel snap) \<longrightarrow>
        sorted_wrt (\<lambda>a b. frequency (activeKeys sel snap) b \<le> frequency (activeKeys sel snap) a)
          (map word (topKeywords st)) \<and>
        sorted_wrt (rankedBefore (activeKeys sel snap)) (map word (topKeywords st))"
  proof
    assume "js ''constructor'' \<notin> set (activeKeys sel snap)"
    then have "sorted_wrt (rankedBefore (activeKeys sel snap)) (map word (topKeywords st))"
      unfolding w activeKeys_def by (rule keywordEntries_ranked)
    then show "sorted_wrt (\<lambda>a b. frequency (activeKeys sel snap) b \<le> frequency (activeKeys sel snap) a)
          (map word (topKeywords st)) \<and>
        sorted_wrt (rankedBefore (activeKeys sel snap)) (map word (topKeywords st))"
      using ranked_descending by blast
  qed
  from l show "length (topKeywords st) \<le> 10" .
  assume "js ''constructor'' \<notin> set (activeKeys sel snap)"
  with r show "sorted_wrt (\<lambda>a b. frequency (activeKeys sel snap) b \<le> frequency (activeKeys sel snap) a)
          (map word (topKeywords st))"
    and "sorted_wrt (rankedBefore (activeKeys sel snap)) (map word (topKeywords st))"
    by blast+
qed

theorem keywords_ranked_witness:
  "stats [] rankedText None =
     Inr \<lparr>words = 7, characters = 23, charactersWithFormatting = 29, sentences = 1,
          paragraphs = 0, readingTime = js ''2 sec'', speakingTime = js ''3 sec'',
          readingGrade = unavailable,
          topKeywords =
            [\<lparr>word = js ''10'', density_text = js ''28.6''\<rparr>,
             \<lparr>word = js ''zebra'', density_text = js ''28.6''\<rparr>,
             \<lparr>word = js ''9'', density_text = js ''14.3''\<rparr>,
             \<lparr>word = js ''apple'', density_text = js ''14.3''\<rparr>]\<rparr> \<and>
   js ''constructor'' \<notin> set (activeKeys [] rankedText) \<and>
   sorted_wrt (rankedBefore (activeKeys [] rankedText))
     [js ''10'', js ''zebra'', js ''9'', js ''apple'']"
proof -
  have c: "js ''constructor'' \<notin> set (activeKeys [] rankedText)"
    by (simp add: ranked_active js_def)
  let ?st = "\<lparr>words = 7, characters = 23, charactersWithFormatting = 29, sentences = 1,
          paragraphs = 0, readingTime = js ''2 sec'', speakingTime = js ''3 sec'',
          readingGrade = unavailable,
          topKeywords =
            [\<lparr>word = js ''10'', density_text = js ''28.6''\<rparr>,
             \<lparr>word = js ''zebra'', density_text = js ''28.6''\<rparr>,
             \<lparr>word = js ''9'', density_text = js ''14.3''\<rparr>,
             \<lparr>word = js ''apple'', density_text = js ''14.3''\<rparr>]\<rparr>"
  from keywords_ranked [where sel = "[]" and snap = rankedText and ed = None and st = ?st]
    ranked_stats c
  have "sorted_wrt (rankedBefore (activeKeys [] rankedText)) (map word (topKeywords ?st))"
    by blast
  then have "sorted_wrt (rankedBefore (activeKeys [] rankedText))
     [js ''10'', js ''zebra'', js ''9'', js ''apple'']"
    by (simp del: sorted_wrt.simps)
  with ranked_stats c show ?thesis by blast
qed

text \<open>
  The claim C2 as first stated breaks ties by first-seen order. In \<open>"Chapter 7"\<close> the
  two keys have frequency 1 and \<open>chapter\<close> is seen first, but \<open>7\<close> is an array index
  and is listed first.
\<close>

theorem keywords_first_seen_counterexample:
  "stats [] chapterText None =
     Inr \<lparr>words = 2, characters = 8, charactersWithFormatting = 9, sentences = 1,
          paragraphs = 0, readingTime = js ''1 sec'', speakingTime = js ''1 sec'',
          readingGrade = unavailable,
          topKeywords =
            [\<lparr>word = js ''7'', density_text = js ''50.0''\<rparr>,
             \<lparr>word = js ''chapter'', density_text = js ''50.0''\<rparr>]\<rparr> \<and>
   activeKeys [] chapterText = [js ''chapter'', js ''7''] \<and>
   frequency (activeKeys [] chapterText) (js ''chapter'') = 1 \<and>
   frequency (activeKeys [] chapterText) (js ''7'') = 1 \<and>
   firstSeen (activeKeys [] chapterText) (js ''chapter'') = 0 \<and>
   firstSeen (activeKeys [] chapterText) (js ''7'') = 1"
  by (simp add: chapter_stats chapter_active frequency_def firstSeen_def js_def)

text \<open>
  Claim C9. The claim is that no stop word is ever listed as a keyword and that the
  densities of the listed keywords, each its frequency over the number of words times
  100, sum to at most 100. For the text \<open>"The constructor runs first."\<close> the code does
  otherwise: the tally reads the inherited property \<open>constructor\<close> for the word
  \<open>constructor\<close>, its count is a string and not a number, and its density is \<open>NaN\<close>.
  (\<open>keywords_never_stop_words\<close> above is the part of the claim that holds for every
  text, and \<open>keyword_density_sum\<close> is the other part for the texts without that
  word: each density is the rounded share of a frequency, and the shares sum to at most
  100.)
\<close>

theorem keywords_constructor_density:
  "stats [] constructorText None =
     Inr \<lparr>words = 4, characters = 24, charactersWithFormatting = 27, sentences = 1,
          paragraphs = 0, readingTime = js ''1 sec'', speakingTime = js ''2 sec'',
          readingGrade = js ''4th'',
          topKeywords =
            [\<lparr>word = js ''constructor'', density_text = js ''NaN''\<rparr>,
             \<lparr>word = js ''runs'', density_text = js ''25.0''\<rparr>,
             \<lparr>word = js ''first'', density_text = js ''25.0''\<rparr>]\<rparr> \<and>
   keywordEntries (activeWords (trim constructorText)) =
     [(js ''constructor'', ObjectText 1), (js ''runs'', Num 1), (js ''first'', Num 1)] \<and>
   density 4 (ObjectText 1) = NaN"
  by (simp add: constructor_stats constructor_trim constructor_words constructor_entries
      density_def)

section \<open>The walk of the heatmap and the selection walk\<close>

text \<open>
  In the editor library \<open>descendants(f)\<close> is \<open>nodesBetween(0, content.size, f)\<close>. That
  walk never fails, and the heatmap built from its calls is the one built from
  \<open>descendants\<close> above.
\<close>

lemma inlineBetween_heat:
  "inlineBetween is pos from to nodeStart = Inr calls \<Longrightarrow>
   concat (map (heatCallback []) calls) = []"
proof (induction "is" arbitrary: pos calls)
  case Nil
  then show ?case by (simp split: if_splits)
next
  case (Cons child rest)
  show ?case
  proof (cases "pos < to")
    case False
    with Cons.prems show ?thesis by simp
  next
    case True
    with Cons.prems obtain later where
      l: "inlineBetween rest (pos + inlineSize child) from to nodeStart = Inr later"
      and c: "calls = (if pos + inlineSize child > from then [(inlineNode child, nodeStart + pos)] else []) @ later"
      by (auto simp: Let_def split: sum.splits)
    have "concat (map (heatCallback []) later) = []" using Cons.IH [OF l] .
    then show ?thesis unfolding c by (simp add: heatCallback_def inlineNode_def)
  qed
qed

lemma contentSize_zero_heat:
  "contentSize n = 0 \<Longrightarrow> concat (map (heatCallback []) (descend n p)) = []"
proof (cases n)
  case (Textblock "is")
  then show ?thesis by (simp add: heat_walkInline)
next
  case (Block cs)
  assume "contentSize n = 0"
  then have "sum_list (map nodeSize cs) = 0" using Block by (simp add: contentSize_Block del: contentSize.simps(2))
  then have "cs = []" by (cases cs) (auto simp: nodeSize_def split: pmnode.splits)
  then show ?thesis using Block by simp
next
  case BlockAtom
  then show ?thesis by simp
qed

lemma between_heat:
  "from = 0 \<longrightarrow> to = pos + sum_list (map nodeSize cs) \<longrightarrow>
     (\<exists>calls. fragmentBetween cs pos from to nodeStart = Inr calls \<and>
        concat (map (heatCallback []) calls) =
        concat (map (heatCallback []) (descendList cs (nodeStart + pos))))"
  "from = 0 \<longrightarrow> to = contentSize n \<longrightarrow>
     (\<exists>calls. contentBetween n from to nodeStart = Inr calls \<and>
        concat (map (heatCallback []) calls) =
        concat (map (heatCallback []) (descend n nodeStart)))"
proof (induction cs pos "from" to nodeStart and n "from" to nodeStart
    rule: fragmentBetween_contentBetween.induct)
  case (1 pos "from" to nodeStart)
  show ?case by simp
next
  case (2 child rest pos "from" to nodeStart)
  show ?case
  proof (intro impI)
    assume f: "from = 0" and t: "to = pos + sum_list (map nodeSize (child # rest))"
    have sz: "1 \<le> nodeSize child" by (simp add: nodeSize_def split: pmnode.splits)
    then have lt: "pos < to" using t by simp
    define here where "here =
       (if pos + nodeSize child > from then
          (if contentSize child \<noteq> 0 then
             (case contentBetween child (from - (pos + 1))
                     (min (contentSize child) (to - (pos + 1))) (nodeStart + (pos + 1)) of
                Inl e \<Rightarrow> Inl e
              | Inr below \<Rightarrow> Inr ((blockNode child, nodeStart + pos) # below))
           else Inr [(blockNode child, nodeStart + pos)])
        else Inr [])"
    have unf: "fragmentBetween (child # rest) pos from to nodeStart =
       (case here of
          Inl e \<Rightarrow> Inl e
        | Inr hh \<Rightarrow>
            (case fragmentBetween rest (pos + nodeSize child) from to nodeStart of
               Inl e \<Rightarrow> Inl e
             | Inr later \<Rightarrow> Inr (hh @ later)))"
      using lt unfolding here_def by (simp add: Let_def)
    have hereOk: "\<exists>h. here = Inr h \<and>
        concat (map (heatCallback []) h) =
        heatCallback [] (blockNode child, nodeStart + pos) @
        concat (map (heatCallback []) (descend child (nodeStart + pos + 1)))"
    proof (cases "contentSize child = 0")
      case True
      then show ?thesis
        using f sz contentSize_zero_heat [OF True, of "nodeStart + pos + 1"]
        by (simp add: here_def)
    next
      case False
      then have na: "child \<noteq> BlockAtom" by auto
      have "to - (pos + 1) \<ge> contentSize child"
        using t nodeSize_ge [OF na] by simp
      then have m: "min (contentSize child) (to - (pos + 1)) = contentSize child" by simp
      have gt: "pos + nodeSize child > from" using f sz by simp
      have "from - (pos + 1) = 0 \<longrightarrow>
         min (contentSize child) (to - (pos + 1)) = contentSize child \<longrightarrow>
         (\<exists>calls. contentBetween child (from - (pos + 1))
              (min (contentSize child) (to - (pos + 1))) (nodeStart + (pos + 1)) = Inr calls \<and>
            concat (map (heatCallback []) calls) =
            concat (map (heatCallback []) (descend child (nodeStart + (pos + 1)))))"
        using 2(1) [of "pos + nodeSize child" "pos + 1"] lt gt False by simp
      with f m
      obtain below where
        b: "contentBetween child (from - (pos + 1))
              (min (contentSize child) (to - (pos + 1))) (nodeStart + (pos + 1)) = Inr below"
        and hb: "concat (map (heatCallback []) below) =
                 concat (map (heatCallback []) (descend child (nodeStart + (pos + 1))))"
        by auto
      have "here = Inr ((blockNode child, nodeStart + pos) # below)"
        using gt False b by (simp add: here_def)
      then show ?thesis using hb by (simp add: add.assoc)
    qed
    then obtain h where h: "here = Inr h"
      and hh: "concat (map (heatCallback []) h) =
        heatCallback [] (blockNode child, nodeStart + pos) @
        concat (map (heatCallback []) (descend child (nodeStart + pos + 1)))"
      by blast
    have t': "to = (pos + nodeSize child) + sum_list (map nodeSize rest)" using t by simp
    have "from = 0 \<longrightarrow> to = (pos + nodeSize child) + sum_list (map nodeSize rest) \<longrightarrow>
       (\<exists>calls. fragmentBetween rest (pos + nodeSize child) from to nodeStart = Inr calls \<and>
          concat (map (heatCallback []) calls) =
          concat (map (heatCallback []) (descendList rest (nodeStart + (pos + nodeSize child)))))"
      using 2(2) [of "pos + nodeSize child" "pos + 1" h] lt h unfolding here_def by simp
    with f t'
    obtain later where
      l: "fragmentBetween rest (pos + nodeSize child) from to nodeStart = Inr later"
      and hl: "concat (map (heatCallback []) later) =
               concat (map (heatCallback []) (descendList rest (nodeStart + (pos + nodeSize child))))"
      by blast
    have "fragmentBetween (child # rest) pos from to nodeStart = Inr (h @ later)"
      using unf h l by simp
    moreover have "concat (map (heatCallback []) (h @ later)) =
        concat (map (heatCallback []) (descendList (child # rest) (nodeStart + pos)))"
      using hh hl by (simp add: add.assoc)
    ultimately show "\<exists>calls. fragmentBetween (child # rest) pos from to nodeStart = Inr calls \<and>
        concat (map (heatCallback []) calls) =
        concat (map (heatCallback []) (descendList (child # rest) (nodeStart + pos)))"
      by blast
  qed
next
  case (3 "is" "from" to nodeStart)
  show ?case
  proof (intro impI)
    assume "from = 0" and t: "to = contentSize (Textblock is)"
    obtain calls where c: "inlineBetween is 0 from to nodeStart = Inr calls"
      using inlineBetween_total [of to 0 "is" "from" nodeStart] t by auto
    then show "\<exists>calls. contentBetween (Textblock is) from to nodeStart = Inr calls \<and>
        concat (map (heatCallback []) calls) =
        concat (map (heatCallback []) (descend (Textblock is) nodeStart))"
      using inlineBetween_heat [OF c] by (simp add: heat_walkInline)
  qed
next
  case (4 cs "from" to nodeStart)
  then show ?case by (simp add: contentSize_Block del: contentSize.simps(2))
next
  case (5 "from" to nodeStart)
  show ?case by simp
qed

lemma descendants_nodesBetween:
  "\<exists>calls. nodesBetween d 0 (contentSize d) = Inr calls \<and>
     foldl heatCallback [] calls = getSentenceHeatmap d"
  using between_heat(2) [of 0 "contentSize d" d 0]
  by (simp add: nodesBetween_def foldl_heatCallback getSentenceHeatmap_concat descendants_def)

end
